theory Spec2Isabelle
  imports Main "HOL-Library.Signed_Division" "HOL-Library.Multiset"
begin

section \<open>The dice roller of dice.c\<close>

text \<open>
  The development follows dice.c from the leaves: the C integers and the C library
  functions it uses on strings, the roll executors (which take plain integers), the
  structs of dice.h, the parser, and the evaluator that walks the parse tree.
\<close>

section \<open>C integers\<close>

text \<open>
  An \<open>int\<close> of the program has 32 bits in two's complement. The model computes on
  mathematical integers and brings every result of \<open>int\<close> arithmetic back into the range
  \<open>-2147483648 .. 2147483647\<close> with \<open>c_int\<close>: this is the wrap-around the compiled
  program performs on \<open>+\<close>, \<open>-\<close> and \<open>*\<close>, and it is also what the conversion of a
  wider value (a \<open>long\<close>, a pointer difference) to \<open>int\<close> gives. Where a result cannot
  leave the range (a loop counter below its bound, an offset into a string) the
  arithmetic is written plainly.
\<close>

definition c_int :: "int \<Rightarrow> int" where
  "c_int x = (x + 2147483648) mod 4294967296 - 2147483648"

section \<open>C strings\<close>

text \<open>
  A \<open>char*\<close> argument is modelled by the bytes from the pointer up to, and not
  including, the terminating NUL of its buffer; \<open>inp + k\<close> is \<open>drop k inp\<close>. The
  length argument that travels with the pointer is a separate \<open>int\<close>, as in the source,
  and may be shorter than the buffer: the library functions below read the buffer up to
  its NUL whatever that length is.
\<close>

definition char_at :: "string \<Rightarrow> nat \<Rightarrow> char" where
  \<comment> \<open>\<open>inp[i]\<close> for an index up to the terminator, which is at index \<open>length inp\<close>.
      A read beyond the terminator is outside the buffer; the one place where the
      source can make such a read (\<open>inp[len-1]\<close> in \<open>parse_obj\<close>) tests the index
      before it uses \<open>char_at\<close>\<close>
  "char_at s i = (if i < length s then s ! i else CHR 0x00)"

fun strpbrk :: "string \<Rightarrow> string \<Rightarrow> nat option" where
  \<comment> \<open>offset of the first byte that is in \<open>accept\<close>; \<open>None\<close> is the NULL result\<close>
  "strpbrk [] accept = None"
| "strpbrk (c # cs) accept =
     (if c \<in> set accept then Some 0 else map_option Suc (strpbrk cs accept))"

fun strchr :: "string \<Rightarrow> char \<Rightarrow> nat option" where
  "strchr [] ch = None"
| "strchr (c # cs) ch = (if c = ch then Some 0 else map_option Suc (strchr cs ch))"

fun strspn :: "string \<Rightarrow> string \<Rightarrow> nat" where
  \<comment> \<open>length of the longest prefix made of bytes of \<open>accept\<close>\<close>
  "strspn [] accept = 0"
| "strspn (c # cs) accept = (if c \<in> set accept then Suc (strspn cs accept) else 0)"

definition strncpy :: "string \<Rightarrow> int \<Rightarrow> string" where
  \<comment> \<open>the C string left in \<open>dst\<close> by \<open>strncpy(dst, src, n); dst[n] = 0\<close>\<close>
  "strncpy src n = take (nat n) src"

definition isspace :: "char \<Rightarrow> bool" where
  "isspace c = (c \<in> set [CHR '' '', CHR 0x09, CHR 0x0A, CHR 0x0B, CHR 0x0C, CHR 0x0D])"

definition isdigit :: "char \<Rightarrow> bool" where
  "isdigit c = (c \<in> set ''0123456789'')"

definition digit_value :: "char \<Rightarrow> int" where
  "digit_value c = int (of_char c) - 48"

fun digits_to_int :: "int \<Rightarrow> string \<Rightarrow> int" where
  \<comment> \<open>the decimal value of the leading digits, accumulated from the left\<close>
  "digits_to_int acc [] = acc"
| "digits_to_int acc (c # cs) =
     (if isdigit c then digits_to_int (10 * acc + digit_value c) cs else acc)"

definition strtol :: "string \<Rightarrow> int" where
  \<comment> \<open>\<open>strtol(s, NULL, 10)\<close>: leading white space, an optional sign, then the leading
      digits; anything after them is ignored and a string with no digits gives 0. The
      result is a \<open>long\<close> of 64 bits, and a value outside its range is replaced by the
      nearest end of the range\<close>
  "strtol s =
     (let v = (case dropWhile isspace s of
                 [] \<Rightarrow> 0
               | c # cs \<Rightarrow>
                   if c = CHR ''-'' then - digits_to_int 0 cs
                   else if c = CHR ''+'' then digits_to_int 0 cs
                   else digits_to_int 0 (c # cs))
      in max (- 9223372036854775808) (min 9223372036854775807 v))"

definition atoi :: "string \<Rightarrow> int" where
  \<comment> \<open>\<open>atoi(s)\<close> is \<open>(int) strtol(s, NULL, 10)\<close> in the C library: digits that denote
      more than an \<open>int\<close> holds wrap around, so \<open>atoi("2147483648")\<close> is
      \<open>-2147483648\<close> and \<open>atoi("4294967295")\<close> is \<open>-1\<close>\<close>
  "atoi s = c_int (strtol s)"

section \<open>Roll executor\<close>

text \<open>
  The evaluator returns a number or does not return: a division or remainder by zero,
  the quotient \<open>-2147483648 / -1\<close>, a NULL pointer followed, an array index or length
  out of range, and \<open>exit(1)\<close> on an unrecognised operation are the errors of
  \<open>exec_error\<close>. The random source \<open>get_next_random\<close> is modelled by the list of the
  numbers it is going to return (in the program they lie between 0 and 2147483647),
  consumed from the front and threaded through the evaluation; a run that needs more
  numbers than the list holds ends in \<open>NoMoreRandom\<close>, so a loop that never leaves gives
  that error on every list. Verbose printing does not change any result and is left
  out.
\<close>

datatype exec_error =
  DivisionByZero | DivisionOverflow | NullPointer | OutOfBounds | NegativeLength
  | UnrecognizedOperation | NoMoreRandom

definition get_next_random :: "int list \<Rightarrow> exec_error + (int \<times> int list)" where
  "get_next_random rng = (case rng of [] \<Rightarrow> Inl NoMoreRandom | r # rs \<Rightarrow> Inr (r, rs))"

definition next_roll :: "int \<Rightarrow> int list \<Rightarrow> exec_error + (int \<times> int list)" where
  \<comment> \<open>\<open>(get_next_random() % dieSides) + 1\<close>; C's \<open>%\<close> truncates, as \<open>smod\<close> does\<close>
  "next_roll dieSides rng =
     (case get_next_random rng of
        Inl e \<Rightarrow> Inl e
      | Inr (r, rng') \<Rightarrow>
          if dieSides = 0 then Inl DivisionByZero
          else Inr (c_int (r smod dieSides + 1), rng'))"

definition STACK_ALLOC :: "(nat \<Rightarrow> int) \<Rightarrow> int \<Rightarrow> int list" where
  \<comment> \<open>\<open>STACK_ALLOC(type, name, count)\<close> is a macro whose definition is not under src/;
      from its uses it declares a local array \<open>name\<close> of \<open>count\<close> elements. For \<open>int\<close>
      arrays the model is a list of \<open>n\<close> elements; the array is not initialised, and the
      parameter \<open>mem i\<close> stands for whatever element \<open>i\<close> holds when it is created.
      The stack is taken to be large enough for the array\<close>
  "STACK_ALLOC mem n = map mem [0..<nat n]"

function sum_loop :: "int list \<Rightarrow> int \<Rightarrow> nat \<Rightarrow> int \<Rightarrow> int" where
  "sum_loop rolls cnt i acc =
     (if int i < cnt then sum_loop rolls cnt (Suc i) (c_int (acc + rolls ! i)) else acc)"
  by pat_completeness auto
termination
  by (relation "measure (\<lambda>(rolls, cnt, i, acc). nat (cnt - int i))") auto

declare sum_loop.simps [simp del]

definition sum_up :: "int list \<Rightarrow> int \<Rightarrow> int" where
  \<comment> \<open>\<open>cnt\<close> and \<open>acc\<close> are \<open>count\<close> and \<open>sum\<close> of the source; \<open>sum += rolls[i]\<close> is an
      \<open>int\<close> addition and wraps. Every caller passes a count that is at most the length
      of the array\<close>
  "sum_up rolls cnt = sum_loop rolls cnt 0 0"

subsection \<open>execute\_basic\_roll\<close>

function basic_loop ::
  "int \<Rightarrow> int \<Rightarrow> nat \<Rightarrow> int list \<Rightarrow> int list \<Rightarrow> exec_error + (int list \<times> int list)" where
  "basic_loop dieCount dieSides i rolls rng =
     (if int i < dieCount then
        (case next_roll dieSides rng of
           Inl e \<Rightarrow> Inl e
         | Inr (r, rng') \<Rightarrow> basic_loop dieCount dieSides (Suc i) (rolls[i := r]) rng')
      else Inr (rolls, rng))"
  by pat_completeness auto
termination
  by (relation "measure (\<lambda>(dieCount, dieSides, i, rolls, rng). nat (dieCount - int i))") auto

declare basic_loop.simps [simp del]

definition execute_basic_roll ::
  "(nat \<Rightarrow> int) \<Rightarrow> int \<Rightarrow> int \<Rightarrow> int list \<Rightarrow> exec_error + (int \<times> int list)" where
  "execute_basic_roll mem dieCount dieSides rng =
     (if dieCount < 0 then Inl NegativeLength
      else
        case basic_loop dieCount dieSides 0 (STACK_ALLOC mem dieCount) rng of
          Inl e \<Rightarrow> Inl e
        | Inr (rolls, rng') \<Rightarrow> Inr (sum_up rolls dieCount, rng'))"

subsection \<open>execute\_choose\_n\_roll\<close>

definition compare_roll_high :: "int \<Rightarrow> int \<Rightarrow> int" where
  "compare_roll_high r1 r2 = c_int (r2 - r1)"

definition compare_roll_low :: "int \<Rightarrow> int \<Rightarrow> int" where
  "compare_roll_low r1 r2 = c_int (r1 - r2)"

text \<open>
  \<open>qsort\<close> is the C library's: it leaves the first \<open>n\<close> elements of the array in an
  order in which no element compares greater than a later one. It is modelled by
  insertion sort (\<open>cmp\<close> is the parameter \<open>comp\<close>). With either comparator above, elements that compare equal are equal
  numbers, so every such order is the same array.
\<close>

fun insert_by :: "(int \<Rightarrow> int \<Rightarrow> int) \<Rightarrow> int \<Rightarrow> int list \<Rightarrow> int list" where
  "insert_by cmp x [] = [x]"
| "insert_by cmp x (y # ys) =
     (if cmp x y \<le> 0 then x # y # ys else y # insert_by cmp x ys)"

definition qsort :: "int list \<Rightarrow> int \<Rightarrow> (int \<Rightarrow> int \<Rightarrow> int) \<Rightarrow> int list" where
  "qsort base n cmp = foldr (insert_by cmp) (take (nat n) base) [] @ drop (nat n) base"

function choose_loop ::
  "int \<Rightarrow> int \<Rightarrow> int \<Rightarrow> (int \<Rightarrow> int \<Rightarrow> int) \<Rightarrow> nat \<Rightarrow> int list \<Rightarrow> int \<Rightarrow> int list
     \<Rightarrow> exec_error + (int list \<times> int list)" where
  "choose_loop dieCount dieSides nChoose cmp i rolls chosen rng =
     (if int i < dieCount then
        (case next_roll dieSides rng of
           Inl e \<Rightarrow> Inl e
         | Inr (r, rng') \<Rightarrow>
             if chosen < nChoose then
               (if chosen < 0 then Inl OutOfBounds
                else choose_loop dieCount dieSides nChoose cmp (Suc i)
                       (rolls[nat chosen := r]) (chosen + 1) rng')
             else
               (if nChoose < 0 then Inl OutOfBounds
                else choose_loop dieCount dieSides nChoose cmp (Suc i)
                       (qsort (rolls[nat nChoose := r]) (c_int (nChoose + 1)) cmp) chosen rng'))
      else Inr (rolls, rng))"
  by pat_completeness auto
termination
  by (relation "measure (\<lambda>(dieCount, dieSides, nChoose, cmp, i, rolls, chosen, rng).
        nat (dieCount - int i))") auto

declare choose_loop.simps [simp del]

definition execute_choose_n_roll ::
  "(nat \<Rightarrow> int) \<Rightarrow> int \<Rightarrow> int \<Rightarrow> int \<Rightarrow> (int \<Rightarrow> int \<Rightarrow> int) \<Rightarrow> int list
     \<Rightarrow> exec_error + (int \<times> int list)" where
  "execute_choose_n_roll mem dieCount dieSides nChoose cmp rng =
     (if c_int (nChoose + 1) < 0 then Inl NegativeLength
      else
        case choose_loop dieCount dieSides nChoose cmp 0
               (STACK_ALLOC mem (c_int (nChoose + 1))) 0 rng of
          Inl e \<Rightarrow> Inl e
        | Inr (rolls, rng') \<Rightarrow> Inr (sum_up rolls nChoose, rng'))"

subsection \<open>execute\_reroll\_below\_roll and execute\_exploding\_roll\<close>

lemma next_roll_shorter: "next_roll dieSides rng = Inr (r, rng') \<Longrightarrow> length rng' < length rng"
  by (auto simp: next_roll_def get_next_random_def split: list.splits if_splits)

function reroll_while ::
  "int \<Rightarrow> int \<Rightarrow> int \<Rightarrow> int list \<Rightarrow> exec_error + (int \<times> int list)" where
  "reroll_while dieSides rerollThresh r rng =
     (if r \<le> rerollThresh then
        (case next_roll dieSides rng of
           Inl e \<Rightarrow> Inl e
         | Inr (r', rng') \<Rightarrow> reroll_while dieSides rerollThresh r' rng')
      else Inr (r, rng))"
  by pat_completeness auto
termination
  by (relation "measure (\<lambda>(dieSides, rerollThresh, r, rng). length rng)")
    (auto dest: next_roll_shorter)

declare reroll_while.simps [simp del]

function reroll_loop ::
  "int \<Rightarrow> int \<Rightarrow> int \<Rightarrow> nat \<Rightarrow> int list \<Rightarrow> int list \<Rightarrow> exec_error + (int list \<times> int list)" where
  "reroll_loop dieCount dieSides rerollThresh i rolls rng =
     (if int i < dieCount then
        (case next_roll dieSides rng of
           Inl e \<Rightarrow> Inl e
         | Inr (r, rng') \<Rightarrow>
             (case reroll_while dieSides rerollThresh r rng' of
                Inl e \<Rightarrow> Inl e
              | Inr (r', rng'') \<Rightarrow>
                  reroll_loop dieCount dieSides rerollThresh (Suc i) (rolls[i := r']) rng''))
      else Inr (rolls, rng))"
  by pat_completeness auto
termination
  by (relation "measure (\<lambda>(dieCount, dieSides, rerollThresh, i, rolls, rng).
        nat (dieCount - int i))") auto

declare reroll_loop.simps [simp del]

definition execute_reroll_below_roll ::
  "(nat \<Rightarrow> int) \<Rightarrow> int \<Rightarrow> int \<Rightarrow> int \<Rightarrow> int list \<Rightarrow> exec_error + (int \<times> int list)" where
  "execute_reroll_below_roll mem dieCount dieSides rerollThresh rng =
     (if dieCount < 0 then Inl NegativeLength
      else
        case reroll_loop dieCount dieSides rerollThresh 0 (STACK_ALLOC mem dieCount) rng of
          Inl e \<Rightarrow> Inl e
        | Inr (rolls, rng') \<Rightarrow> Inr (sum_up rolls dieCount, rng'))"

function explode_while ::
  "int \<Rightarrow> int \<Rightarrow> int \<Rightarrow> int \<Rightarrow> int list \<Rightarrow> exec_error + (int \<times> int list)" where
  "explode_while dieSides explodeThresh r rollTotal rng =
     (if r \<ge> explodeThresh then
        (case next_roll dieSides rng of
           Inl e \<Rightarrow> Inl e
         | Inr (r', rng') \<Rightarrow>
             explode_while dieSides explodeThresh r' (c_int (rollTotal + r')) rng')
      else Inr (rollTotal, rng))"
  by pat_completeness auto
termination
  by (relation "measure (\<lambda>(dieSides, explodeThresh, r, rollTotal, rng). length rng)")
    (auto dest: next_roll_shorter)

declare explode_while.simps [simp del]

function explode_loop ::
  "int \<Rightarrow> int \<Rightarrow> int \<Rightarrow> nat \<Rightarrow> int list \<Rightarrow> int list \<Rightarrow> exec_error + (int list \<times> int list)" where
  "explode_loop dieCount dieSides explodeThresh i rolls rng =
     (if int i < dieCount then
        (case next_roll dieSides rng of
           Inl e \<Rightarrow> Inl e
         | Inr (r, rng') \<Rightarrow>
             (case explode_while dieSides explodeThresh r (c_int (0 + r)) rng' of
                Inl e \<Rightarrow> Inl e
              | Inr (rollTotal, rng'') \<Rightarrow>
                  explode_loop dieCount dieSides explodeThresh (Suc i) (rolls[i := rollTotal])
                    rng''))
      else Inr (rolls, rng))"
  by pat_completeness auto
termination
  by (relation "measure (\<lambda>(dieCount, dieSides, explodeThresh, i, rolls, rng).
        nat (dieCount - int i))") auto

declare explode_loop.simps [simp del]

definition execute_exploding_roll ::
  "(nat \<Rightarrow> int) \<Rightarrow> int \<Rightarrow> int \<Rightarrow> int \<Rightarrow> int list \<Rightarrow> exec_error + (int \<times> int list)" where
  "execute_exploding_roll mem dieCount dieSides explodeThresh rng =
     (if dieCount < 0 then Inl NegativeLength
      else
        case explode_loop dieCount dieSides explodeThresh 0 (STACK_ALLOC mem dieCount) rng of
          Inl e \<Rightarrow> Inl e
        | Inr (rolls, rng') \<Rightarrow> Inr (sum_up rolls dieCount, rng'))"

section \<open>Data model\<close>

text \<open>
  The enumerations and structs of dice.h. A nullable pointer to a node is an
  \<open>option\<close>; the two mutually recursive structs \<open>ExprList\<close> and \<open>ObjNode\<close> are
  one mutually recursive datatype whose selectors carry the field names. The fields
  \<open>type\<close> and \<open>constant\<close> of \<open>RollModifier\<close> are \<open>modType\<close> and \<open>modConstant\<close> here,
  and the field \<open>constant\<close> of \<open>ObjNode\<close> is \<open>objConstant\<close> (\<open>constant\<close> is a
  keyword of Isabelle). The \<open>int\<close> fields hold what \<open>atoi\<close> returns, which lies in the
  range of \<open>int\<close>.
\<close>

datatype OpType = A_OP | M_OP

datatype Operation = NOOP | PLUS | MINUS | TIMES | DIVIDE

datatype ModifierType = NONE | CHOOSE_HIGH | CHOOSE_LOW | REROLL_BELOW | KEEP_AND_REROLL_ABOVE

record RollModifier =
  modType :: ModifierType
  modConstant :: int

record RollNode =
  dieCount :: int
  dieSides :: int
  rollMod :: "RollModifier option"

datatype ExprList =
  ExprList (lhList: "ExprList option") (obj: "ObjNode option") (opt: Operation)
    (rhList: "ExprList option")
and ObjNode =
  ObjNode (roll: "RollNode option") (objConstant: int) (subList: "ExprList option")

section \<open>Parser\<close>

text \<open>
  The parser reports an error by printing a message and returning NULL; it does not
  stop at the first error (after a failed left operand the right operand is still
  parsed, and may print again). A parse that returns is therefore \<open>Parsed\<close> with the
  list of messages printed, in order, and the node or NULL. Two steps of the parser
  leave what C defines: a negative array length in \<open>parse_roll\<close>, and a read of
  \<open>inp[len-1]\<close> beyond the end of the buffer in \<open>parse_obj\<close>. A run that reaches one of
  them is \<open>Fault\<close> with the messages printed up to there; the program has no result
  then (in practice it is killed by a signal). Allocation with \<open>malloc\<close> is taken to
  succeed.

  The message "Mismatched parentheses." is printed in two functions. The model keeps
  them apart: \<open>MismatchedParentheses\<close> is the message of the scanner
  \<open>find_first_free_opt\<close>, \<open>MismatchedParenthesesObj\<close> the same text printed by
  \<open>parse_obj\<close>.
\<close>

datatype error =
    MissingObject               \<comment> \<open>"Missing Object."\<close>
  | MismatchedParentheses       \<comment> \<open>"Mismatched parentheses.", from \<open>find_first_free_opt\<close>\<close>
  | MismatchedParenthesesObj    \<comment> \<open>"Mismatched parentheses.", from \<open>parse_obj\<close>\<close>
  | MissingRoll                 \<comment> \<open>"Missing Roll."\<close>
  | GarbledRoll                 \<comment> \<open>"Garbled roll (no 'd' delimiter)."\<close>
  | MissingConstant             \<comment> \<open>"Missing constant."\<close>
  | InvalidConstant             \<comment> \<open>"Invalid constant."\<close>
  | MissingModifier             \<comment> \<open>"Missing Modifier."\<close>
  | InvalidModifierCharacter    \<comment> \<open>"Invalid Modifier Character."\<close>
  | MissingModifierConstant     \<comment> \<open>"Missing Modifier Constant."\<close>

datatype 'a parsed = Parsed "error list" "'a option" | Fault "error list"

fun messages :: "'a parsed \<Rightarrow> error list" where
  \<comment> \<open>what a run has printed\<close>
  "messages (Parsed errs t) = errs"
| "messages (Fault errs) = errs"

subsection \<open>parse\_modifier\<close>

definition parse_modifier :: "string \<Rightarrow> int \<Rightarrow> RollModifier parsed" where
  "parse_modifier inp len =
     (if len \<le> 0 then Parsed [MissingModifier] None
      else
        let c = char_at inp 0;
            type = (if c = CHR ''c'' then CHOOSE_HIGH
                    else if c = CHR ''b'' then REROLL_BELOW
                    else if c = CHR ''v'' then KEEP_AND_REROLL_ABOVE
                    else if c = CHR ''w'' then CHOOSE_LOW
                    else NONE)
        in if type = NONE then Parsed [InvalidModifierCharacter] None
           else if len < 2 then Parsed [MissingModifierConstant] None
           else
             let constant = strncpy (drop 1 inp) (len - 1);
                 val = atoi constant
             in Parsed [] (Some \<lparr>modType = type, modConstant = val\<rparr>))"

subsection \<open>parse\_roll\<close>

text \<open>
  The character buffers \<open>constA\<close>, \<open>constB\<close>, \<open>constant\<close> and \<open>numbuf\<close> are declared
  with \<open>STACK_ALLOC\<close>. For these buffers the initial contents do not matter
  (they are overwritten by \<open>strncpy\<close> and terminated before they are read), so only the
  strings they end up holding are modelled; the stack is taken to be large enough for
  them. When the modifier letter comes before the
  \<open>d\<close>, \<open>b_chars\<close> is negative: the source then allocates \<open>constB\<close> with a negative
  length and passes the negative count to \<open>strncpy\<close>, which is \<open>Fault\<close>.
\<close>

definition parse_roll :: "string \<Rightarrow> int \<Rightarrow> RollNode parsed" where
  "parse_roll inp len =
     (if len \<le> 0 then Parsed [MissingRoll] None
      else
        case strchr inp (CHR ''d'') of
          None \<Rightarrow> Parsed [GarbledRoll] None
        | Some d_loc \<Rightarrow>
            if int d_loc \<ge> len then Parsed [GarbledRoll] None
            else
              let mod_loc = strpbrk inp ''cbvw'';
                  has_mod = (case mod_loc of None \<Rightarrow> False | Some m \<Rightarrow> int m < len);
                  mod_chars = (case mod_loc of None \<Rightarrow> 0
                               | Some m \<Rightarrow> if int m < len then len - int m else 0);
                  rmod = (case mod_loc of None \<Rightarrow> Parsed [] None
                          | Some m \<Rightarrow> if int m < len
                                       then parse_modifier (drop m inp) mod_chars
                                       else Parsed [] None)
              in (case rmod of
                   Fault errs \<Rightarrow> Fault errs
                 | Parsed errs rollmod \<Rightarrow>
                     if has_mod \<and> rollmod = None then Parsed errs None
                     else
                       let a_chars = int d_loc;
                           b_chars = len - (int d_loc + 1 + mod_chars)
                       in if b_chars < 0 then Fault errs
                          else
                            let constA = strncpy inp a_chars;
                                constB = strncpy (drop (d_loc + 1) inp) b_chars;
                                a_char_len = length constA;
                                b_char_len = length constB
                            in if a_char_len = 0 \<or> b_char_len = 0
                               then Parsed (errs @ [MissingConstant]) None
                               else
                                 let a_nums_len = strspn constA ''0123456789'';
                                     b_nums_len = strspn constB ''0123456789''
                                 in if a_nums_len \<noteq> a_char_len \<or> b_nums_len \<noteq> b_char_len
                                    then Parsed (errs @ [InvalidConstant]) None
                                    else Parsed errs
                                           (Some \<lparr>dieCount = atoi constA,
                                                  dieSides = atoi constB,
                                                  rollMod = rollmod\<rparr>)))"

subsection \<open>find\_first\_free\_opt\<close>

text \<open>
  The scanner returns a pointer into the input, NULL, or (after printing
  "Mismatched parentheses.") a pointer to the string literal \<open>"?"\<close>, which is not
  NULL. The three results are \<open>Found\<close> with the offset from \<open>inp\<close>, \<open>NotFound\<close>
  and \<open>Sentinel\<close>. The loop keeps the current \<open>scan\<close> pointer as the rest of the
  buffer from it, together with its offset \<open>scan - inp\<close>.
\<close>

datatype scan_result = Found nat | NotFound | Sentinel

lemma strpbrk_Some_less: "strpbrk s accept = Some k \<Longrightarrow> k < length s"
  by (induction s arbitrary: k) (auto split: if_splits)

function find_loop :: "string \<Rightarrow> nat \<Rightarrow> int \<Rightarrow> string \<Rightarrow> int \<Rightarrow> scan_result" where
  "find_loop rest off len opchars parensDepth =
     (case strpbrk rest opchars of
        None \<Rightarrow> (if parensDepth \<noteq> 0 then Sentinel else NotFound)
      | Some k \<Rightarrow>
          if int (off + k) < len then
            (if rest ! k = CHR ''('' then
               find_loop (drop (Suc k) rest) (off + Suc k) len opchars (parensDepth + 1)
             else if rest ! k = CHR '')'' then
               (if parensDepth - 1 < 0 then Sentinel
                else find_loop (drop (Suc k) rest) (off + Suc k) len opchars (parensDepth - 1))
             else if parensDepth = 0 then Found (off + k)
             else find_loop (drop (Suc k) rest) (off + Suc k) len opchars parensDepth)
          else (if parensDepth \<noteq> 0 then Sentinel else NotFound))"
  by pat_completeness auto

termination
  by (relation "measure (\<lambda>(rest, off, len, opchars, d). length rest)")
    (auto dest: strpbrk_Some_less)

declare find_loop.simps [simp del]

definition find_first_free_opt :: "string \<Rightarrow> int \<Rightarrow> string \<Rightarrow> scan_result" where
  "find_first_free_opt inp len opchars = find_loop inp 0 len opchars 0"

lemma strpbrk_Some_mem: "strpbrk s accept = Some k \<Longrightarrow> s ! k \<in> set accept"
  by (induction s arbitrary: k) (auto split: if_splits)

lemma find_loop_Found_less:
  "find_loop rest off len opchars d = Found p \<Longrightarrow> int p < len \<and> off \<le> p"
proof (induction rest off len opchars d rule: find_loop.induct)
  case (1 rest off len opchars d)
  note unfold = find_loop.simps[of rest off len opchars d]
  show ?case
  proof (cases "strpbrk rest opchars")
    case None
    with "1.prems" show ?thesis by (simp add: unfold split: if_splits)
  next
    case (Some k)
    show ?thesis
    proof (cases "int (off + k) < len")
      case False
      with Some "1.prems" show ?thesis by (simp add: unfold split: if_splits)
    next
      case True
      from "1.prems" Some True "1.IH"(1)[OF Some True] "1.IH"(2)[OF Some True]
        "1.IH"(3)[OF Some True]
      show ?thesis
        by (simp add: unfold split: if_splits)
    qed
  qed
qed

lemma find_first_free_opt_less:
  "find_first_free_opt inp len opchars = Found p \<Longrightarrow> int p < len"
  using find_loop_Found_less[of inp 0 len opchars 0 p] by (simp add: find_first_free_opt_def)

lemma found_char_lift:
  assumes "off + Suc k \<le> p \<and> p - (off + Suc k) < length (drop (Suc k) rest)
             \<and> drop (Suc k) rest ! (p - (off + Suc k)) \<in> set opchars"
  shows "off \<le> p \<and> p - off < length rest \<and> rest ! (p - off) \<in> set opchars"
proof -
  let ?j = "p - (off + Suc k)"
  from assms have le: "off + Suc k \<le> p" and j: "?j < length rest - Suc k"
    and c: "drop (Suc k) rest ! ?j \<in> set opchars"
    by simp_all
  from le have e: "p - off = Suc k + ?j" by arith
  from j have "Suc k + ?j < length rest" by arith
  moreover from this have "drop (Suc k) rest ! ?j = rest ! (Suc k + ?j)"
    by (simp only: nth_drop less_imp_le_nat add_lessD1)
  ultimately show ?thesis
    using le c by (simp only: e) simp
qed

lemma find_loop_Found_char:
  "find_loop rest off len opchars d = Found p \<Longrightarrow> off \<le> p \<and> p - off < length rest
     \<and> rest ! (p - off) \<in> set opchars"
proof (induction rest off len opchars d rule: find_loop.induct)
  case (1 rest off len opchars d)
  note unfold = find_loop.simps[of rest off len opchars d]
  show ?case
  proof (cases "strpbrk rest opchars")
    case None
    with "1.prems" show ?thesis by (simp add: unfold split: if_splits)
  next
    case (Some k)
    note kl = strpbrk_Some_less[OF Some] and km = strpbrk_Some_mem[OF Some]
    show ?thesis
    proof (cases "int (off + k) < len")
      case False
      with Some "1.prems" show ?thesis by (simp add: unfold split: if_splits)
    next
      case True
      note IH = "1.IH"[OF Some True]
      consider (opn) "rest ! k = CHR ''(''"
        | (cls) "rest ! k = CHR '')''" "d - 1 < 0"
        | (cls') "rest ! k = CHR '')''" "\<not> d - 1 < 0"
        | (found) "rest ! k \<noteq> CHR ''(''" "rest ! k \<noteq> CHR '')''" "d = 0"
        | (opr) "rest ! k \<noteq> CHR ''(''" "rest ! k \<noteq> CHR '')''" "d \<noteq> 0"
        by blast
      then show ?thesis
      proof cases
        case opn
        from "1.prems" Some True opn
        have "find_loop (drop (Suc k) rest) (off + Suc k) len opchars (d + 1) = Found p"
          by (simp add: unfold)
        from IH(1)[OF opn this] show ?thesis by (rule found_char_lift)
      next
        case cls
        with "1.prems" Some True show ?thesis by (simp add: unfold)
      next
        case cls'
        then have ne: "rest ! k \<noteq> CHR ''(''" by simp
        from "1.prems" Some True cls'
        have "find_loop (drop (Suc k) rest) (off + Suc k) len opchars (d - 1) = Found p"
          by (simp add: unfold)
        from IH(2)[OF ne cls' this] show ?thesis by (rule found_char_lift)
      next
        case found
        from "1.prems" Some True found have "p = off + k"
          by (subst (asm) unfold) simp
        with kl km show ?thesis by simp
      next
        case opr
        from "1.prems" Some True opr
        have "find_loop (drop (Suc k) rest) (off + Suc k) len opchars d = Found p"
          by (simp add: unfold)
        from IH(3)[OF opr this] show ?thesis by (rule found_char_lift)
      qed
    qed
  qed
qed

lemma find_first_free_opt_char:
  "find_first_free_opt inp len opchars = Found p
     \<Longrightarrow> p < length inp \<and> char_at inp p \<in> set opchars"
  using find_loop_Found_char[of inp 0 len opchars 0 p]
  by (simp add: find_first_free_opt_def char_at_def)

lemma find_first_free_opt_Nil: "find_first_free_opt [] len opchars = NotFound"
  by (simp add: find_first_free_opt_def find_loop.simps[of "[]"])

lemma find_first_free_opt_Sentinel_buffer:
  "find_first_free_opt inp len opchars = Sentinel \<Longrightarrow> inp \<noteq> []"
  by (auto simp: find_first_free_opt_Nil)

subsection \<open>parse\_operator, parse\_expr and parse\_obj\<close>

definition parse_operator :: "char \<Rightarrow> Operation" where
  "parse_operator c =
     (if c = CHR ''+'' then PLUS
      else if c = CHR ''-'' then MINUS
      else if c = CHR ''*'' then TIMES
      else if c = CHR ''/'' then DIVIDE
      else NOOP)"

text \<open>
  The success test and node construction of the two branches of \<open>parse_expr\<close>.
\<close>

definition make_node ::
  "ExprList option \<Rightarrow> ObjNode option \<Rightarrow> Operation \<Rightarrow> ExprList option \<Rightarrow> ExprList option" where
  "make_node lhExpr ob operation subExpr =
     (if (ob = None \<and> lhExpr = None) \<or> operation = NOOP \<or> subExpr = None then None
      else Some (ExprList lhExpr ob operation subExpr))"

definition make_singlet :: "ExprList option \<Rightarrow> ObjNode option \<Rightarrow> ExprList option" where
  "make_singlet lhNode ob =
     (if ob = None \<and> lhNode = None then None
      else Some (ExprList lhNode ob NOOP None))"

text \<open>
  \<open>parse_expr\<close> tests the scanner's result against NULL only, so on \<open>Sentinel\<close> it
  goes down the same branch as for an operator that was found, with \<open>first_opt\<close> the
  address of the literal \<open>"?"\<close>:

  \<^item> the left operand is parsed from \<open>inp\<close> with the length \<open>first_opt - inp\<close>, the
    distance from the input to the literal (the two \<open>return "?"\<close> of the scanner
    return the same literal). That distance is a matter of where the compiler and the
    system put the two, so it is a parameter of the model: \<open>lit\<close> is the value of
    \<open>"?" - inp\<close> for the pointer \<open>inp\<close> of the call, and a call on \<open>inp + k\<close>
    gets \<open>lit - k\<close>. Passed as a length it is converted to \<open>int\<close>;

  \<^item> the operator is read at the literal: \<open>parse_operator\<close> of \<open>'?'\<close>, which is
    \<open>NOOP\<close>, so the node is never built;

  \<^item> the right operand is parsed from \<open>first_opt + 1\<close>, the terminator of the literal
    (the empty string, at distance \<open>-1\<close> from the literal), with the length
    \<open>len - ((first_opt - inp) + 1)\<close>.

  The length of the left operand then has nothing to do with the buffer, and
  \<open>parse_obj\<close> reads \<open>inp[len-1]\<close> with it: when that index lies beyond the terminator
  of the buffer the read is outside the buffer, and the run is \<open>Fault\<close>. No caller
  in the program passes a length beyond the terminator, so this read is reached only
  after a failed scan.
\<close>

lemma OpType_not_M_OP: "(t \<noteq> M_OP) = (t = A_OP)"
  by (cases t) simp_all

function parse_expr :: "string \<Rightarrow> int \<Rightarrow> int \<Rightarrow> OpType \<Rightarrow> ExprList parsed"
  and parse_obj :: "string \<Rightarrow> int \<Rightarrow> int \<Rightarrow> ObjNode parsed" where
  "parse_expr inp lit len type =
     (if len \<le> 0 then Parsed [MissingObject] None
      else
        (case find_first_free_opt inp len (if type = M_OP then ''()*/'' else ''()+-'') of
           Found p \<Rightarrow>
             (if type = M_OP then
                (case parse_obj inp lit (int p) of
                   Fault e1 \<Rightarrow> Fault e1
                 | Parsed e1 ob \<Rightarrow>
                     (case parse_expr (drop (Suc p) inp) (lit - (int p + 1))
                             (len - (int p + 1)) type of
                        Fault e2 \<Rightarrow> Fault (e1 @ e2)
                      | Parsed e2 subExpr \<Rightarrow>
                          Parsed (e1 @ e2)
                            (make_node None ob (parse_operator (char_at inp p)) subExpr)))
              else
                (case parse_expr inp lit (int p) M_OP of
                   Fault e1 \<Rightarrow> Fault e1
                 | Parsed e1 lhExpr \<Rightarrow>
                     (case parse_expr (drop (Suc p) inp) (lit - (int p + 1))
                             (len - (int p + 1)) type of
                        Fault e2 \<Rightarrow> Fault (e1 @ e2)
                      | Parsed e2 subExpr \<Rightarrow>
                          Parsed (e1 @ e2)
                            (make_node lhExpr None (parse_operator (char_at inp p)) subExpr))))
         | Sentinel \<Rightarrow>
             (if type = M_OP then
                (case parse_obj inp lit (c_int lit) of
                   Fault e1 \<Rightarrow> Fault (MismatchedParentheses # e1)
                 | Parsed e1 ob \<Rightarrow>
                     (case parse_expr [] (- 1) (c_int (len - (lit + 1))) type of
                        Fault e2 \<Rightarrow> Fault (MismatchedParentheses # e1 @ e2)
                      | Parsed e2 subExpr \<Rightarrow>
                          Parsed (MismatchedParentheses # e1 @ e2)
                            (make_node None ob (parse_operator (CHR ''?'')) subExpr)))
              else
                (case parse_expr inp lit (c_int lit) M_OP of
                   Fault e1 \<Rightarrow> Fault (MismatchedParentheses # e1)
                 | Parsed e1 lhExpr \<Rightarrow>
                     (case parse_expr [] (- 1) (c_int (len - (lit + 1))) type of
                        Fault e2 \<Rightarrow> Fault (MismatchedParentheses # e1 @ e2)
                      | Parsed e2 subExpr \<Rightarrow>
                          Parsed (MismatchedParentheses # e1 @ e2)
                            (make_node lhExpr None (parse_operator (CHR ''?'')) subExpr))))
         | NotFound \<Rightarrow>
             (if type = M_OP then
                (case parse_obj inp lit len of
                   Fault e \<Rightarrow> Fault e
                 | Parsed e ob \<Rightarrow> Parsed e (make_singlet None ob))
              else
                (case parse_expr inp lit len M_OP of
                   Fault e \<Rightarrow> Fault e
                 | Parsed e lhNode \<Rightarrow> Parsed e (make_singlet lhNode None)))))"
| "parse_obj inp lit len =
     (if len \<le> 0 then Parsed [MissingObject] None
      else if char_at inp 0 = CHR ''('' then
        (if int (length inp) < len - 1 then Fault []
         else if char_at inp (nat (len - 1)) \<noteq> CHR '')'' then
           Parsed [MismatchedParenthesesObj] None
         else
           (case parse_expr (drop 1 inp) (lit - 1) (len - 2) A_OP of
              Fault e \<Rightarrow> Fault e
            | Parsed e subExpr \<Rightarrow>
                (case subExpr of
                   None \<Rightarrow> Parsed e None
                 | Some s \<Rightarrow> Parsed e (Some (ObjNode None 0 (Some s))))))
      else if int (strspn inp ''0123456789'') = len then
        Parsed [] (Some (ObjNode None (atoi (strncpy inp len)) None))
      else
        (case parse_roll inp len of
           Fault e \<Rightarrow> Fault e
         | Parsed e r \<Rightarrow>
             (case r of
                None \<Rightarrow> Parsed e None
              | Some rl \<Rightarrow> Parsed e (Some (ObjNode (Some rl) 0 None)))))"
  by pat_completeness auto

termination
proof (relation "measure (\<lambda>x. case x of
          Inl (inp, lit, len, type) \<Rightarrow> 3 * length inp + (if type = A_OP then 2 else 1)
        | Inr (inp, lit, len) \<Rightarrow> 3 * length inp)", goal_cases)
  case 1
  show ?case by simp
qed (auto dest!: find_first_free_opt_char find_first_free_opt_Sentinel_buffer
      simp: char_at_def OpType_not_M_OP split: if_splits)

declare parse_expr.simps [simp del] parse_obj.simps [simp del]

section \<open>Evaluator: execute\_roll, execute\_expr and execute\_obj\<close>

definition execute_roll ::
  "(nat \<Rightarrow> int) \<Rightarrow> RollNode \<Rightarrow> int list \<Rightarrow> exec_error + (int \<times> int list)" where
  "execute_roll mem rl rng =
     (case rollMod rl of
        Some m \<Rightarrow>
          (case modType m of
             CHOOSE_HIGH \<Rightarrow>
               execute_choose_n_roll mem (dieCount rl) (dieSides rl) (modConstant m)
                 compare_roll_high rng
           | CHOOSE_LOW \<Rightarrow>
               execute_choose_n_roll mem (dieCount rl) (dieSides rl) (modConstant m)
                 compare_roll_low rng
           | REROLL_BELOW \<Rightarrow>
               execute_reroll_below_roll mem (dieCount rl) (dieSides rl) (modConstant m) rng
           | KEEP_AND_REROLL_ABOVE \<Rightarrow>
               execute_exploding_roll mem (dieCount rl) (dieSides rl) (modConstant m) rng
           | NONE \<Rightarrow> Inr (0, rng))
      | None \<Rightarrow> execute_basic_roll mem (dieCount rl) (dieSides rl) rng)"

definition expr_is_singlet :: "ExprList \<Rightarrow> bool" where
  "expr_is_singlet expr = (rhList expr = None \<and> opt expr = NOOP)"

text \<open>
  The four operations are \<open>int\<close> operations: sum, difference and product wrap around,
  and \<open>/\<close> truncates, as \<open>sdiv\<close> does. A division by zero and the one quotient that
  does not fit, \<open>-2147483648 / -1\<close>, stop the program.
\<close>

fun execute_expr ::
  "(nat \<Rightarrow> int) \<Rightarrow> ExprList \<Rightarrow> int list \<Rightarrow> exec_error + (int \<times> int list)"
  and execute_obj ::
  "(nat \<Rightarrow> int) \<Rightarrow> ObjNode \<Rightarrow> int list \<Rightarrow> exec_error + (int \<times> int list)" where
  "execute_expr mem (ExprList lh ob operation rh) rng =
     (case (case lh of
              Some l \<Rightarrow> execute_expr mem l rng
            | None \<Rightarrow> (case ob of None \<Rightarrow> Inl NullPointer
                       | Some b \<Rightarrow> execute_obj mem b rng)) of
        Inl e \<Rightarrow> Inl e
      | Inr (lhResult, rng') \<Rightarrow>
          if expr_is_singlet (ExprList lh ob operation rh) then Inr (lhResult, rng')
          else
            (case rh of
               None \<Rightarrow> Inl NullPointer
             | Some r \<Rightarrow>
                 (case execute_expr mem r rng' of
                    Inl e \<Rightarrow> Inl e
                  | Inr (rhResult, rng'') \<Rightarrow>
                      (case operation of
                         PLUS \<Rightarrow> Inr (c_int (lhResult + rhResult), rng'')
                       | MINUS \<Rightarrow> Inr (c_int (lhResult - rhResult), rng'')
                       | TIMES \<Rightarrow> Inr (c_int (lhResult * rhResult), rng'')
                       | DIVIDE \<Rightarrow>
                           if rhResult = 0 then Inl DivisionByZero
                           else if lhResult = - 2147483648 \<and> rhResult = - 1
                           then Inl DivisionOverflow
                           else Inr (lhResult sdiv rhResult, rng'')
                       | NOOP \<Rightarrow> Inl UnrecognizedOperation))))"
| "execute_obj mem (ObjNode rl c sub) rng =
     (case rl of
        Some r \<Rightarrow> execute_roll mem r rng
      | None \<Rightarrow> (case sub of Some s \<Rightarrow> execute_expr mem s rng | None \<Rightarrow> Inr (c, rng)))"

section \<open>Shape of the parse tree\<close>

text \<open>
  Names for the nodes the parser builds, used to write expected trees down:
  \<open>const_obj c\<close> is the object node of the constant \<open>c\<close>, \<open>paren_obj e\<close> that of a
  parenthesised expression, \<open>m_single b\<close> the multiplicative singlet around an object,
  \<open>m_node b operation r\<close> a multiplicative node, \<open>a_single l\<close> and \<open>a_node l operation r\<close>
  the additive singlet and node around a multiplicative left operand.
\<close>

definition const_obj :: "int \<Rightarrow> ObjNode" where
  "const_obj c = ObjNode None c None"

definition paren_obj :: "ExprList \<Rightarrow> ObjNode" where
  "paren_obj e = ObjNode None 0 (Some e)"

definition roll_obj :: "RollNode \<Rightarrow> ObjNode" where
  "roll_obj r = ObjNode (Some r) 0 None"

definition m_single :: "ObjNode \<Rightarrow> ExprList" where
  "m_single b = ExprList None (Some b) NOOP None"

definition m_node :: "ObjNode \<Rightarrow> Operation \<Rightarrow> ExprList \<Rightarrow> ExprList" where
  "m_node b operation r = ExprList None (Some b) operation (Some r)"

definition a_single :: "ExprList \<Rightarrow> ExprList" where
  "a_single l = ExprList (Some l) None NOOP None"

definition a_node :: "ExprList \<Rightarrow> Operation \<Rightarrow> ExprList \<Rightarrow> ExprList" where
  "a_node l operation r = ExprList (Some l) None operation (Some r)"

lemmas tree_defs =
  const_obj_def paren_obj_def roll_obj_def m_single_def m_node_def a_single_def a_node_def

section \<open>Arithmetic in the range of int\<close>

lemma c_int_id: "- 2147483648 \<le> x \<Longrightarrow> x \<le> 2147483647 \<Longrightarrow> c_int x = x"
  by (simp add: c_int_def)

lemma c_int_range: "- 2147483648 \<le> c_int x \<and> c_int x \<le> 2147483647"
proof -
  have "0 \<le> (x + 2147483648) mod 4294967296" and "(x + 2147483648) mod 4294967296 < 4294967296"
    by simp_all
  then show ?thesis by (simp add: c_int_def)
qed

lemma c_int_idem: "c_int (c_int x) = c_int x"
  using c_int_range[of x] by (simp add: c_int_id)

lemma c_int_add_left: "c_int (c_int a + b) = c_int (a + b)"
proof -
  have "c_int a + b + 2147483648 = (a + 2147483648) mod 4294967296 + b"
    by (simp add: c_int_def)
  then have "(c_int a + b + 2147483648) mod 4294967296
        = ((a + 2147483648) mod 4294967296 + b) mod 4294967296"
    by (rule arg_cong)
  also have "\<dots> = (a + 2147483648 + b) mod 4294967296"
    by (rule mod_add_left_eq)
  also have "a + 2147483648 + b = a + b + 2147483648"
    by simp
  finally have "(c_int a + b + 2147483648) mod 4294967296 = (a + b + 2147483648) mod 4294967296" .
  then show ?thesis
    unfolding c_int_def[of "c_int a + b"] c_int_def[of "a + b"] by (rule arg_cong)
qed

lemma c_int_add_right: "c_int (a + c_int b) = c_int (a + b)"
  using c_int_add_left[of b a] by (simp add: add.commute)

lemma c_int_diff_left: "c_int (c_int a - b) = c_int (a - b)"
  using c_int_add_left[of a "- b"] by simp

lemma c_int_diff_right: "c_int (a - c_int b) = c_int (a - b)"
proof -
  have "a - c_int b + 2147483648 = a + 4294967296 - (b + 2147483648) mod 4294967296"
    by (simp add: c_int_def)
  then have "(a - c_int b + 2147483648) mod 4294967296
        = (a + 4294967296 - (b + 2147483648) mod 4294967296) mod 4294967296"
    by (rule arg_cong)
  also have "\<dots> = (a + 4294967296 - (b + 2147483648)) mod 4294967296"
    by (rule mod_diff_right_eq)
  also have "a + 4294967296 - (b + 2147483648) = a - b + 2147483648"
    by simp
  finally have "(a - c_int b + 2147483648) mod 4294967296 = (a - b + 2147483648) mod 4294967296" .
  then show ?thesis
    unfolding c_int_def[of "a - c_int b"] c_int_def[of "a - b"] by (rule arg_cong)
qed

lemma c_int_sum_list: "c_int (sum_list (map c_int xs)) = c_int (sum_list xs)"
proof (induction xs)
  case Nil
  show ?case by simp
next
  case (Cons x xs)
  have "c_int (sum_list (map c_int (x # xs))) = c_int (c_int x + sum_list (map c_int xs))"
    by simp
  also have "\<dots> = c_int (x + c_int (sum_list (map c_int xs)))"
    by (simp only: c_int_add_left c_int_add_right)
  also have "\<dots> = c_int (x + sum_list xs)"
    by (simp only: Cons.IH c_int_add_right)
  finally show ?case by simp
qed

section \<open>Structure of successful parses\<close>

lemma parse_expr_Found:
  assumes "find_first_free_opt inp len (if type = M_OP then ''()*/'' else ''()+-'') = Found p"
    and "parse_expr inp lit len type = Parsed errs (Some t)"
  shows "\<exists>e1 e2 r. parse_expr (drop (Suc p) inp) (lit - (int p + 1)) (len - (int p + 1)) type
                     = Parsed e2 (Some r)
           \<and> rhList t = Some r \<and> opt t = parse_operator (char_at inp p) \<and> opt t \<noteq> NOOP
           \<and> (if type = M_OP
                then parse_obj inp lit (int p) = Parsed e1 (obj t) \<and> lhList t = None
                     \<and> obj t \<noteq> None
                else parse_expr inp lit (int p) M_OP = Parsed e1 (lhList t) \<and> obj t = None
                     \<and> lhList t \<noteq> None)
           \<and> errs = e1 @ e2"
  using assms(2)
  apply (subst (asm) parse_expr.simps)
  using assms(1)
  apply (auto simp: make_node_def split: if_splits parsed.splits)
  done

lemma parse_expr_NotFound:
  assumes "find_first_free_opt inp len (if type = M_OP then ''()*/'' else ''()+-'') = NotFound"
    and "parse_expr inp lit len type = Parsed errs (Some t)"
  shows "rhList t = None \<and> opt t = NOOP
           \<and> (if type = M_OP
                then parse_obj inp lit len = Parsed errs (obj t) \<and> lhList t = None
                     \<and> obj t \<noteq> None
                else parse_expr inp lit len M_OP = Parsed errs (lhList t) \<and> obj t = None
                     \<and> lhList t \<noteq> None)"
  using assms(2)
  apply (subst (asm) parse_expr.simps)
  using assms(1)
  apply (auto simp: make_singlet_def split: if_splits parsed.splits)
  done

lemma parse_expr_Sentinel_no_tree:
  assumes "find_first_free_opt inp len (if type = M_OP then ''()*/'' else ''()+-'') = Sentinel"
  shows "parse_expr inp lit len type \<noteq> Parsed errs (Some t)"
proof
  assume "parse_expr inp lit len type = Parsed errs (Some t)"
  then show False
    apply (subst (asm) parse_expr.simps)
    using assms
    apply (auto simp: make_node_def parse_operator_def split: if_splits parsed.splits)
    done
qed

section \<open>Associativity and precedence\<close>

text \<open>
  Claim C2. Chains of operators of one level group to the right. Whenever the scanner
  finds an operator at depth 0 at offset \<open>p\<close> and the parse succeeds, the text after the
  operator, \<open>inp[p+1 .. len)\<close>, parsed at the same level, is the right-hand continuation
  \<open>rhList\<close> of the node, and the node's operation is the one read at \<open>p\<close>. So
  \<open>"1-2-3"\<close> parses as \<open>1-(2-3)\<close> and evaluates to 2, and \<open>"2-3-4"\<close> parses as \<open>2-(3-4)\<close>
  and evaluates to 3 (no random number is consumed), wherever the buffer lies.
\<close>


theorem C2_right_associative:
  "(\<forall>inp lit len type p errs t.
      find_first_free_opt inp len (if type = M_OP then ''()*/'' else ''()+-'') = Found p \<longrightarrow>
      parse_expr inp lit len type = Parsed errs (Some t) \<longrightarrow>
      (\<exists>e r. parse_expr (drop (Suc p) inp) (lit - (int p + 1)) (len - (int p + 1)) type
                = Parsed e (Some r)
             \<and> rhList t = Some r \<and> opt t = parse_operator (char_at inp p)))
   \<and> parse_expr ''1-2-3'' lit 5 A_OP =
       Parsed [] (Some (a_node (m_single (const_obj 1)) MINUS
                         (a_node (m_single (const_obj 2)) MINUS
                            (a_single (m_single (const_obj 3))))))
   \<and> execute_expr mem (a_node (m_single (const_obj 1)) MINUS
                         (a_node (m_single (const_obj 2)) MINUS
                            (a_single (m_single (const_obj 3))))) rng = Inr (2, rng)
   \<and> parse_expr ''2-3-4'' lit 5 A_OP =
       Parsed [] (Some (a_node (m_single (const_obj 2)) MINUS
                         (a_node (m_single (const_obj 3)) MINUS
                            (a_single (m_single (const_obj 4))))))
   \<and> execute_expr mem (a_node (m_single (const_obj 2)) MINUS
                         (a_node (m_single (const_obj 3)) MINUS
                            (a_single (m_single (const_obj 4))))) rng = Inr (3, rng)"
proof (intro conjI allI impI)
  fix inp lit len type p errs t
  assume "find_first_free_opt inp len (if type = M_OP then ''()*/'' else ''()+-'') = Found p"
    and "parse_expr inp lit len type = Parsed errs (Some t)"
  from parse_expr_Found[OF this]
  show "\<exists>e r. parse_expr (drop (Suc p) inp) (lit - (int p + 1)) (len - (int p + 1)) type
                = Parsed e (Some r)
             \<and> rhList t = Some r \<and> opt t = parse_operator (char_at inp p)"
    by blast
next
  show "parse_expr ''1-2-3'' lit 5 A_OP =
       Parsed [] (Some (a_node (m_single (const_obj 1)) MINUS
                         (a_node (m_single (const_obj 2)) MINUS
                            (a_single (m_single (const_obj 3))))))"
    by code_simp
next
  show "parse_expr ''2-3-4'' lit 5 A_OP =
       Parsed [] (Some (a_node (m_single (const_obj 2)) MINUS
                         (a_node (m_single (const_obj 3)) MINUS
                            (a_single (m_single (const_obj 4))))))"
    by code_simp
qed (simp_all add: tree_defs expr_is_singlet_def c_int_def)

theorem C2_right_associative_witness:
  "find_first_free_opt ''1-2-3'' 5 ''()+-'' = Found 1
   \<and> parse_expr ''1-2-3'' 4096 5 A_OP =
       Parsed [] (Some (a_node (m_single (const_obj 1)) MINUS
                         (a_node (m_single (const_obj 2)) MINUS
                            (a_single (m_single (const_obj 3))))))
   \<and> (\<exists>e r. parse_expr ''2-3'' 4094 3 A_OP = Parsed e (Some r)
          \<and> rhList (a_node (m_single (const_obj 1)) MINUS
                         (a_node (m_single (const_obj 2)) MINUS
                            (a_single (m_single (const_obj 3))))) = Some r)"
proof -
  have b: "find_first_free_opt ''1-2-3'' 5 (if A_OP = M_OP then ''()*/'' else ''()+-'') = Found 1"
    by code_simp
  have c: "parse_expr ''1-2-3'' 4096 5 A_OP =
       Parsed [] (Some (a_node (m_single (const_obj 1)) MINUS
                         (a_node (m_single (const_obj 2)) MINUS
                            (a_single (m_single (const_obj 3))))))"
    by code_simp
  from C2_right_associative[THEN conjunct1, rule_format, OF b c]
  obtain e r where "parse_expr (drop (Suc 1) ''1-2-3'') (4096 - (int 1 + 1)) (5 - (int 1 + 1)) A_OP
                      = Parsed e (Some r)"
    and "rhList (a_node (m_single (const_obj 1)) MINUS
                         (a_node (m_single (const_obj 2)) MINUS
                            (a_single (m_single (const_obj 3))))) = Some r"
    by blast
  then have "\<exists>e r. parse_expr ''2-3'' 4094 3 A_OP = Parsed e (Some r)
          \<and> rhList (a_node (m_single (const_obj 1)) MINUS
                         (a_node (m_single (const_obj 2)) MINUS
                            (a_single (m_single (const_obj 3))))) = Some r"
    by auto
  with b c show ?thesis by simp
qed

text \<open>
  Claim C3. Multiplicative operators bind tighter than additive ones. A successful
  parse at the additive level has its left operand in \<open>lhList\<close>, produced by
  \<open>parse_expr\<close> at the multiplicative level on the text before the first additive
  operator at depth 0 (the whole span when there is none), and has no object of its own. A
  successful parse at the multiplicative level has its left operand in \<open>obj\<close>, produced
  by \<open>parse_obj\<close> on the text before the first multiplicative operator at depth 0, and
  never has an \<open>lhList\<close>. So \<open>"2+3*4"\<close> parses as \<open>2+(3*4)\<close> and evaluates to 14, and
  \<open>"(2+3)*4"\<close> evaluates to 20.
\<close>

theorem C3_precedence:
  "(\<forall>inp lit len errs t.
      parse_expr inp lit len A_OP = Parsed errs (Some t) \<longrightarrow>
      obj t = None \<and> lhList t \<noteq> None \<and>
      (\<exists>e. parse_expr inp lit (case find_first_free_opt inp len ''()+-'' of
                              Found p \<Rightarrow> int p | NotFound \<Rightarrow> len | Sentinel \<Rightarrow> len) M_OP
             = Parsed e (lhList t)))
   \<and> (\<forall>inp lit len errs t.
      parse_expr inp lit len M_OP = Parsed errs (Some t) \<longrightarrow>
      lhList t = None \<and> obj t \<noteq> None \<and>
      (\<exists>e. parse_obj inp lit (case find_first_free_opt inp len ''()*/'' of
                             Found p \<Rightarrow> int p | NotFound \<Rightarrow> len | Sentinel \<Rightarrow> len)
             = Parsed e (obj t)))
   \<and> parse_expr ''2+3*4'' lit 5 A_OP =
       Parsed [] (Some (a_node (m_single (const_obj 2)) PLUS
                         (a_single (m_node (const_obj 3) TIMES (m_single (const_obj 4))))))
   \<and> execute_expr mem (a_node (m_single (const_obj 2)) PLUS
                         (a_single (m_node (const_obj 3) TIMES (m_single (const_obj 4))))) rng
       = Inr (14, rng)
   \<and> parse_expr ''(2+3)*4'' lit 7 A_OP =
       Parsed [] (Some (a_single
                         (m_node (paren_obj (a_node (m_single (const_obj 2)) PLUS
                                               (a_single (m_single (const_obj 3)))))
                            TIMES (m_single (const_obj 4)))))
   \<and> execute_expr mem (a_single
                         (m_node (paren_obj (a_node (m_single (const_obj 2)) PLUS
                                               (a_single (m_single (const_obj 3)))))
                            TIMES (m_single (const_obj 4)))) rng
       = Inr (20, rng)"
proof (intro conjI allI impI)
  fix inp lit len errs t
  assume ok: "parse_expr inp lit len A_OP = Parsed errs (Some t)"
  show "obj t = None" "lhList t \<noteq> None"
    "\<exists>e. parse_expr inp lit (case find_first_free_opt inp len ''()+-'' of
                              Found p \<Rightarrow> int p | NotFound \<Rightarrow> len | Sentinel \<Rightarrow> len) M_OP
             = Parsed e (lhList t)"
    using ok parse_expr_Found[of inp len A_OP _ lit errs t]
      parse_expr_NotFound[of inp len A_OP lit errs t]
      parse_expr_Sentinel_no_tree[of inp len A_OP lit errs t]
    by (cases "find_first_free_opt inp len ''()+-''"; auto)+
next
  fix inp lit len errs t
  assume ok: "parse_expr inp lit len M_OP = Parsed errs (Some t)"
  show "lhList t = None" "obj t \<noteq> None"
    "\<exists>e. parse_obj inp lit (case find_first_free_opt inp len ''()*/'' of
                             Found p \<Rightarrow> int p | NotFound \<Rightarrow> len | Sentinel \<Rightarrow> len)
             = Parsed e (obj t)"
    using ok parse_expr_Found[of inp len M_OP _ lit errs t]
      parse_expr_NotFound[of inp len M_OP lit errs t]
      parse_expr_Sentinel_no_tree[of inp len M_OP lit errs t]
    by (cases "find_first_free_opt inp len ''()*/''"; auto)+
next
  show "parse_expr ''2+3*4'' lit 5 A_OP =
       Parsed [] (Some (a_node (m_single (const_obj 2)) PLUS
                         (a_single (m_node (const_obj 3) TIMES (m_single (const_obj 4))))))"
    by code_simp
next
  show "parse_expr ''(2+3)*4'' lit 7 A_OP =
       Parsed [] (Some (a_single
                         (m_node (paren_obj (a_node (m_single (const_obj 2)) PLUS
                                               (a_single (m_single (const_obj 3)))))
                            TIMES (m_single (const_obj 4)))))"
    by code_simp
qed (simp_all add: tree_defs expr_is_singlet_def c_int_def)

theorem C3_precedence_witness:
  "parse_expr ''2+3*4'' 4096 5 A_OP =
       Parsed [] (Some (a_node (m_single (const_obj 2)) PLUS
                         (a_single (m_node (const_obj 3) TIMES (m_single (const_obj 4))))))
   \<and> find_first_free_opt ''2+3*4'' 5 ''()+-'' = Found 1
   \<and> parse_expr ''2+3*4'' 4096 1 M_OP = Parsed [] (Some (m_single (const_obj 2)))
   \<and> lhList (a_node (m_single (const_obj 2)) PLUS
                (a_single (m_node (const_obj 3) TIMES (m_single (const_obj 4)))))
       = Some (m_single (const_obj 2))
   \<and> obj (a_node (m_single (const_obj 2)) PLUS
                (a_single (m_node (const_obj 3) TIMES (m_single (const_obj 4))))) = None"
proof -
  have a: "parse_expr ''2+3*4'' 4096 5 A_OP =
       Parsed [] (Some (a_node (m_single (const_obj 2)) PLUS
                         (a_single (m_node (const_obj 3) TIMES (m_single (const_obj 4))))))"
    by code_simp
  have b: "find_first_free_opt ''2+3*4'' 5 ''()+-'' = Found 1"
    by code_simp
  have c: "parse_expr ''2+3*4'' 4096 1 M_OP = Parsed [] (Some (m_single (const_obj 2)))"
    by code_simp
  from C3_precedence[THEN conjunct1, rule_format, OF a]
  have "obj (a_node (m_single (const_obj 2)) PLUS
                (a_single (m_node (const_obj 3) TIMES (m_single (const_obj 4))))) = None"
    and "\<exists>e. parse_expr ''2+3*4'' 4096 (case find_first_free_opt ''2+3*4'' 5 ''()+-'' of
                              Found p \<Rightarrow> int p | NotFound \<Rightarrow> 5 | Sentinel \<Rightarrow> 5) M_OP
             = Parsed e (lhList (a_node (m_single (const_obj 2)) PLUS
                (a_single (m_node (const_obj 3) TIMES (m_single (const_obj 4))))))"
    by blast+
  with a b c show ?thesis by simp
qed

section \<open>Constants of rolls and modifiers\<close>

lemma digit_value_nonneg: "isdigit c \<Longrightarrow> 0 \<le> digit_value c \<and> digit_value c \<le> 9"
  by (auto simp: isdigit_def digit_value_def)

lemma digits_to_int_nonneg: "0 \<le> acc \<Longrightarrow> 0 \<le> digits_to_int acc s"
proof (induction s arbitrary: acc)
  case Nil
  then show ?case by simp
next
  case (Cons c s)
  show ?case
  proof (cases "isdigit c")
    case True
    with Cons.prems digit_value_nonneg[of c] have "0 \<le> 10 * acc + digit_value c" by simp
    from Cons.IH[OF this] True show ?thesis by simp
  next
    case False
    with Cons.prems show ?thesis by simp
  qed
qed

lemma strspn_all: "strspn s accept = length s \<Longrightarrow> \<forall>c \<in> set s. c \<in> set accept"
  by (induction s) (auto split: if_splits)

lemma isdigit_not_space: "isdigit c \<Longrightarrow> \<not> isspace c \<and> c \<noteq> CHR ''-'' \<and> c \<noteq> CHR ''+''"
  by (auto simp: isdigit_def isspace_def)

lemma strtol_digits:
  assumes "strspn s ''0123456789'' = length s"
  shows "strtol s = min 9223372036854775807 (digits_to_int 0 s)"
proof -
  have v: "(case dropWhile isspace s of
              [] \<Rightarrow> 0
            | c # cs \<Rightarrow>
                if c = CHR ''-'' then - digits_to_int 0 cs
                else if c = CHR ''+'' then digits_to_int 0 cs
                else digits_to_int 0 (c # cs)) = digits_to_int 0 s"
  proof (cases s)
    case Nil
    then show ?thesis by simp
  next
    case (Cons c cs)
    with strspn_all[OF assms] have "isdigit c" by (simp add: isdigit_def)
    with isdigit_not_space[of c] Cons show ?thesis by simp
  qed
  from digits_to_int_nonneg[of 0 s] show ?thesis
    unfolding strtol_def v by (simp add: Let_def)
qed

lemma atoi_digits:
  assumes "strspn s ''0123456789'' = length s" and "digits_to_int 0 s \<le> 2147483647"
  shows "atoi s = digits_to_int 0 s"
proof -
  from assms(2) have "min 9223372036854775807 (digits_to_int 0 s) = digits_to_int 0 s"
    by simp
  with strtol_digits[OF assms(1)] have "atoi s = c_int (digits_to_int 0 s)"
    by (simp add: atoi_def)
  with digits_to_int_nonneg[of 0 s] assms(2) show ?thesis
    by (simp add: c_int_id)
qed

lemma strchr_Some: "strchr s ch = Some k \<Longrightarrow> k < length s \<and> s ! k = ch"
  by (induction s arbitrary: k) (auto split: if_splits)

lemma take_length_take: "take (length (take n xs)) xs = take n xs"
  by (cases "n \<le> length xs") (simp_all add: min_def)

lemma parse_roll_success:
  assumes "parse_roll inp len = Parsed errs (Some r)"
  shows "\<exists>d bch. strchr inp (CHR ''d'') = Some d
           \<and> dieCount r = atoi (strncpy inp (int d))
           \<and> dieSides r = atoi (strncpy (drop (d + 1) inp) bch)
           \<and> length (strncpy inp (int d)) \<noteq> 0
           \<and> length (strncpy (drop (d + 1) inp) bch) \<noteq> 0
           \<and> strspn (strncpy inp (int d)) ''0123456789'' = length (strncpy inp (int d))
           \<and> strspn (strncpy (drop (d + 1) inp) bch) ''0123456789''
               = length (strncpy (drop (d + 1) inp) bch)"
  using assms
  by (auto simp: parse_roll_def Let_def split: if_splits option.splits parsed.splits)

text \<open>
  Claim C8, as amended. A roll node returned by \<open>parse_roll\<close> has as die count the
  value \<open>atoi\<close> gives for the text before the \<open>d\<close>, and as die sides the value it gives
  for a piece of the text after the \<open>d\<close>; both texts are non-empty and all digits. Each
  value is the decimal value of its digits, and so not negative, when that value is at
  most 2147483647. Nothing in \<open>parse_roll\<close> compares either of them with zero, and
  digits that denote more than an \<open>int\<close> holds wrap around: see the counterexample.
\<close>

theorem C8_roll_constants:
  "parse_roll inp len = Parsed errs (Some r) \<longrightarrow>
     (\<exists>a b. a \<noteq> [] \<and> b \<noteq> []
        \<and> strspn a ''0123456789'' = length a \<and> strspn b ''0123456789'' = length b
        \<and> a = take (length a) inp \<and> char_at inp (length a) = CHR ''d''
        \<and> b = take (length b) (drop (Suc (length a)) inp)
        \<and> dieCount r = atoi a \<and> dieSides r = atoi b
        \<and> (digits_to_int 0 a \<le> 2147483647 \<longrightarrow>
             dieCount r = digits_to_int 0 a \<and> 0 \<le> dieCount r)
        \<and> (digits_to_int 0 b \<le> 2147483647 \<longrightarrow>
             dieSides r = digits_to_int 0 b \<and> 0 \<le> dieSides r))"
proof
  assume "parse_roll inp len = Parsed errs (Some r)"
  from parse_roll_success[OF this] obtain d bch where
    d: "strchr inp (CHR ''d'') = Some d"
    and cnt: "dieCount r = atoi (strncpy inp (int d))"
    and sides: "dieSides r = atoi (strncpy (drop (d + 1) inp) bch)"
    and ne: "length (strncpy inp (int d)) \<noteq> 0" "length (strncpy (drop (d + 1) inp) bch) \<noteq> 0"
    and dig: "strspn (strncpy inp (int d)) ''0123456789'' = length (strncpy inp (int d))"
      "strspn (strncpy (drop (d + 1) inp) bch) ''0123456789''
         = length (strncpy (drop (d + 1) inp) bch)"
    by blast
  let ?a = "strncpy inp (int d)" and ?b = "strncpy (drop (d + 1) inp) bch"
  from strchr_Some[OF d] have dl: "d < length inp" and at: "inp ! d = CHR ''d''"
    by simp_all
  from dl have la: "length ?a = d" by (simp add: strncpy_def)
  have a: "?a = take (length ?a) inp"
    unfolding strncpy_def by (rule take_length_take[symmetric])
  from dl at have c: "char_at inp (length ?a) = CHR ''d''" by (simp add: la char_at_def)
  have "?b = take (length ?b) (drop (d + 1) inp)"
    unfolding strncpy_def by (rule take_length_take[symmetric])
  then have b: "?b = take (length ?b) (drop (Suc (length ?a)) inp)"
    by (simp only: la Suc_eq_plus1)
  have small: "atoi s = digits_to_int 0 s \<and> 0 \<le> atoi s"
    if "strspn s ''0123456789'' = length s" and "digits_to_int 0 s \<le> 2147483647" for s
    using atoi_digits[OF that] digits_to_int_nonneg[of 0 s] by simp
  from ne have nea: "?a \<noteq> []" and neb: "?b \<noteq> []" by auto
  from small[OF dig(1)] cnt
  have ia: "digits_to_int 0 ?a \<le> 2147483647 \<longrightarrow>
             dieCount r = digits_to_int 0 ?a \<and> 0 \<le> dieCount r"
    by auto
  from small[OF dig(2)] sides
  have ib: "digits_to_int 0 ?b \<le> 2147483647 \<longrightarrow>
             dieSides r = digits_to_int 0 ?b \<and> 0 \<le> dieSides r"
    by auto
  from nea neb dig a c b cnt sides ia ib
  show "\<exists>a b. a \<noteq> [] \<and> b \<noteq> []
        \<and> strspn a ''0123456789'' = length a \<and> strspn b ''0123456789'' = length b
        \<and> a = take (length a) inp \<and> char_at inp (length a) = CHR ''d''
        \<and> b = take (length b) (drop (Suc (length a)) inp)
        \<and> dieCount r = atoi a \<and> dieSides r = atoi b
        \<and> (digits_to_int 0 a \<le> 2147483647 \<longrightarrow>
             dieCount r = digits_to_int 0 a \<and> 0 \<le> dieCount r)
        \<and> (digits_to_int 0 b \<le> 2147483647 \<longrightarrow>
             dieSides r = digits_to_int 0 b \<and> 0 \<le> dieSides r)"
    by blast
qed

theorem C8_roll_constants_witness:
  "parse_roll ''3d6'' 3 = Parsed [] (Some \<lparr>dieCount = 3, dieSides = 6, rollMod = None\<rparr>)
   \<and> (\<exists>a b. a \<noteq> [] \<and> b \<noteq> [] \<and> a = take (length a) ''3d6''
          \<and> char_at ''3d6'' (length a) = CHR ''d''
          \<and> b = take (length b) (drop (Suc (length a)) ''3d6'')
          \<and> atoi a = 3 \<and> atoi b = 6)"
proof -
  have p: "parse_roll ''3d6'' 3 = Parsed [] (Some \<lparr>dieCount = 3, dieSides = 6, rollMod = None\<rparr>)"
    by code_simp
  from C8_roll_constants[THEN mp, OF p]
  have "\<exists>a b. a \<noteq> [] \<and> b \<noteq> [] \<and> a = take (length a) ''3d6''
          \<and> char_at ''3d6'' (length a) = CHR ''d''
          \<and> b = take (length b) (drop (Suc (length a)) ''3d6'')
          \<and> atoi a = 3 \<and> atoi b = 6"
    by (elim exE conjE) (simp only: RollNode.simps, blast)
  with p show ?thesis by simp
qed

text \<open>
  The claim as stated (count and sides at least 1) fails in two ways. \<open>"0d6"\<close> and
  \<open>"3d0"\<close> are parsed into roll nodes with zero dice and with zero sides, and the
  evaluator then takes a remainder by zero on the latter. And \<open>"2147483648d6"\<close> and
  \<open>"3d4294967295"\<close> are parsed into roll nodes with \<open>-2147483648\<close> dice and with
  \<open>-1\<close> sides, because \<open>atoi\<close> wraps around.
\<close>

theorem C8_zero_and_negative_counterexample:
  "parse_roll ''0d6'' 3 = Parsed [] (Some \<lparr>dieCount = 0, dieSides = 6, rollMod = None\<rparr>)
   \<and> \<not> 1 \<le> dieCount \<lparr>dieCount = 0, dieSides = 6, rollMod = None\<rparr>
   \<and> parse_roll ''3d0'' 3 = Parsed [] (Some \<lparr>dieCount = 3, dieSides = 0, rollMod = None\<rparr>)
   \<and> \<not> 1 \<le> dieSides \<lparr>dieCount = 3, dieSides = 0, rollMod = None\<rparr>
   \<and> parse_expr ''3d0'' 4096 3 A_OP =
       Parsed [] (Some (a_single (m_single
         (roll_obj \<lparr>dieCount = 3, dieSides = 0, rollMod = None\<rparr>))))
   \<and> execute_expr (\<lambda>i. 0) (a_single (m_single
         (roll_obj \<lparr>dieCount = 3, dieSides = 0, rollMod = None\<rparr>))) [5, 5, 5]
       = Inl DivisionByZero
   \<and> parse_roll ''2147483648d6'' 12 =
       Parsed [] (Some \<lparr>dieCount = - 2147483648, dieSides = 6, rollMod = None\<rparr>)
   \<and> \<not> 0 \<le> dieCount \<lparr>dieCount = - 2147483648, dieSides = 6, rollMod = None\<rparr>
   \<and> parse_roll ''3d4294967295'' 12 =
       Parsed [] (Some \<lparr>dieCount = 3, dieSides = - 1, rollMod = None\<rparr>)
   \<and> \<not> 0 \<le> dieSides \<lparr>dieCount = 3, dieSides = - 1, rollMod = None\<rparr>"
  by (intro conjI; code_simp)

text \<open>
  Claim C7 fails on the code. \<open>parse_modifier\<close> hands the characters after the
  modifier letter to \<open>atoi\<close> without checking them, unlike \<open>parse_roll\<close>, which checks
  its two constants with \<open>strspn\<close>. A suffix with a non-digit is accepted, and its value
  is that of the leading digits (0 when there are none): \<open>"4d6cx"\<close> is a
  choose-highest-0 roll and \<open>"1d6b3x"\<close> a reroll-below-3 roll.
\<close>

lemma parse_modifier_success_iff:
  "(\<exists>m. parse_modifier inp len = Parsed [] (Some m))
     \<longleftrightarrow> 2 \<le> len \<and> char_at inp 0 \<in> set ''cbvw''"
  by (auto simp: parse_modifier_def Let_def)

lemma parse_modifier_digit_suffix:
  assumes "c \<in> set ''cbvw''" and "ds \<noteq> []" and "strspn ds ''0123456789'' = length ds"
    and "digits_to_int 0 ds \<le> 2147483647"
  shows "\<exists>t. parse_modifier (c # ds @ rest) (int (length ds) + 1)
              = Parsed [] (Some \<lparr>modType = t, modConstant = digits_to_int 0 ds\<rparr>)"
proof -
  from assms(2) have "2 \<le> int (length ds) + 1" by (cases ds) auto
  with assms(1) atoi_digits[OF assms(3,4)] show ?thesis
    by (auto simp: parse_modifier_def Let_def char_at_def strncpy_def)
qed

theorem C7_modifier_suffix_not_checked:
  "parse_modifier ''cx'' 2 = Parsed [] (Some \<lparr>modType = CHOOSE_HIGH, modConstant = 0\<rparr>)
   \<and> parse_modifier ''b3x'' 3 = Parsed [] (Some \<lparr>modType = REROLL_BELOW, modConstant = 3\<rparr>)
   \<and> parse_expr ''4d6cx'' lit 5 A_OP =
       Parsed [] (Some (a_single (m_single (roll_obj
         \<lparr>dieCount = 4, dieSides = 6,
          rollMod = Some \<lparr>modType = CHOOSE_HIGH, modConstant = 0\<rparr>\<rparr>))))
   \<and> parse_expr ''1d6b3x'' lit 6 A_OP =
       Parsed [] (Some (a_single (m_single (roll_obj
         \<lparr>dieCount = 1, dieSides = 6,
          rollMod = Some \<lparr>modType = REROLL_BELOW, modConstant = 3\<rparr>\<rparr>))))"
  by (intro conjI; code_simp)

section \<open>Roll executor: the loops\<close>

definition die_value :: "int \<Rightarrow> int \<Rightarrow> int" where
  \<comment> \<open>what a die of \<open>sides\<close> sides shows for the random number \<open>r\<close>\<close>
  "die_value sides r = c_int (r smod sides + 1)"

lemma next_roll_Cons:
  "sides \<noteq> 0 \<Longrightarrow> next_roll sides (r # rng) = Inr (die_value sides r, rng)"
  by (simp add: next_roll_def get_next_random_def die_value_def)

lemma die_value_range: "- 2147483648 \<le> die_value sides r \<and> die_value sides r \<le> 2147483647"
  unfolding die_value_def by (rule c_int_range)

lemma die_value_pos:
  assumes "0 \<le> r" and "0 < sides" and "sides \<le> 2147483647"
  shows "1 \<le> die_value sides r \<and> die_value sides r \<le> sides"
proof -
  from assms(1,2) have "r smod sides = r mod sides"
    by (cases "r = 0") (simp_all add: signed_modulo_int_def)
  moreover from assms(2) have "0 \<le> r mod sides" and "r mod sides < sides"
    by simp_all
  ultimately have "0 \<le> r smod sides" and "r smod sides < sides"
    by simp_all
  with assms(3) show ?thesis
    by (simp add: die_value_def c_int_id)
qed

lemma sum_loop_eq:
  "c_int acc = acc \<Longrightarrow>
     sum_loop rolls cnt i acc = c_int (acc + sum_list (map ((!) rolls) [i..<nat cnt]))"
proof (induction rolls cnt i acc rule: sum_loop.induct)
  case (1 rolls cnt i acc)
  show ?case
  proof (cases "int i < cnt")
    case True
    then have upt: "[i..<nat cnt] = i # [Suc i..<nat cnt]"
      by (simp add: upt_conv_Cons)
    have "sum_loop rolls cnt i acc = sum_loop rolls cnt (Suc i) (c_int (acc + rolls ! i))"
      using True by (subst sum_loop.simps) simp
    also have "\<dots> = c_int (c_int (acc + rolls ! i)
                          + sum_list (map ((!) rolls) [Suc i..<nat cnt]))"
      by (rule "1.IH"[OF True c_int_idem])
    also have "\<dots> = c_int (acc + rolls ! i + sum_list (map ((!) rolls) [Suc i..<nat cnt]))"
      by (rule c_int_add_left)
    finally show ?thesis
      by (simp add: upt add.assoc)
  next
    case False
    with "1.prems" show ?thesis by (subst sum_loop.simps) simp
  qed
qed

lemma map_nth_upt_take: "n \<le> length xs \<Longrightarrow> map ((!) xs) [0..<n] = take n xs"
  by (simp add: list_eq_iff_nth_eq)

lemma sum_up_take:
  "n \<le> length rolls \<Longrightarrow> sum_up rolls (int n) = c_int (sum_list (take n rolls))"
  using sum_loop_eq[of 0 rolls "int n" 0]
  by (simp add: sum_up_def map_nth_upt_take c_int_def)

lemma update_filled:
  assumes "i < length rolls"
  shows "take (Suc i) (rolls[i := v]) = take i rolls @ [v]"
    and "Suc i \<le> m \<Longrightarrow> drop m (rolls[i := v]) = drop m rolls"
    and "length (rolls[i := v]) = length rolls"
  using assms by (simp_all add: take_Suc_conv_app_nth)

lemma STACK_ALLOC_length: "length (STACK_ALLOC mem (int n)) = n"
  by (simp add: STACK_ALLOC_def)

subsection \<open>Reroll below\<close>

lemma reroll_while_run:
  assumes "sides \<noteq> 0"
    and "\<forall>r \<in> set low. die_value sides r \<le> thresh"
    and "thresh < die_value sides hi"
  shows "\<exists>r rng'. next_roll sides (low @ hi # rest) = Inr (r, rng')
           \<and> reroll_while sides thresh r rng' = Inr (die_value sides hi, rest)"
  using assms(2)
proof (induction low)
  case Nil
  from assms(1,3) show ?case
    by (simp add: next_roll_Cons reroll_while.simps[of sides thresh "die_value sides hi"])
next
  case (Cons l low)
  then have l: "die_value sides l \<le> thresh" and rest: "\<forall>r \<in> set low. die_value sides r \<le> thresh"
    by simp_all
  from Cons.IH[OF rest] assms(1) l show ?case
    by (auto simp: next_roll_Cons reroll_while.simps[of sides thresh "die_value sides l"])
qed

definition reroll_draws :: "(int list \<times> int) list \<Rightarrow> int list" where
  \<comment> \<open>the random numbers of a run, die by die: those rerolled, then the one kept\<close>
  "reroll_draws segs = concat (map (\<lambda>(low, hi). low @ [hi]) segs)"

definition reroll_kept :: "int \<Rightarrow> (int list \<times> int) list \<Rightarrow> int list" where
  \<comment> \<open>the value each die ends with\<close>
  "reroll_kept sides segs = map (\<lambda>(low, hi). die_value sides hi) segs"

lemma reroll_loop_run:
  assumes "sides \<noteq> 0"
  shows "\<lbrakk>\<forall>(low, hi) \<in> set segs. (\<forall>r \<in> set low. die_value sides r \<le> thresh)
                                      \<and> thresh < die_value sides hi;
          int i + int (length segs) = cnt; i + length segs \<le> length rolls\<rbrakk>
     \<Longrightarrow> reroll_loop cnt sides thresh i rolls (reroll_draws segs @ rest)
         = Inr (take i rolls @ reroll_kept sides segs
                  @ drop (i + length segs) rolls, rest)"
proof (induction segs arbitrary: i rolls)
  case Nil
  then show ?case
    by (subst reroll_loop.simps) (simp add: reroll_draws_def reroll_kept_def)
next
  case (Cons seg segs)
  obtain low hi where seg: "seg = (low, hi)" by (cases seg)
  from Cons.prems(1) seg have low: "\<forall>r \<in> set low. die_value sides r \<le> thresh"
    and hi: "thresh < die_value sides hi"
    and others: "\<forall>(low, hi) \<in> set segs. (\<forall>r \<in> set low. die_value sides r \<le> thresh)
                                      \<and> thresh < die_value sides hi"
    by auto
  from Cons.prems(2,3) have i: "int i < cnt" "i < length rolls"
    and n: "int (Suc i) + int (length segs) = cnt"
      "Suc i + length segs \<le> length (rolls[i := die_value sides hi])"
    by simp_all
  have draws: "reroll_draws (seg # segs) @ rest = low @ hi # (reroll_draws segs @ rest)"
    by (simp add: reroll_draws_def seg)
  from reroll_while_run[OF assms low hi, of "reroll_draws segs @ rest"]
  obtain r rng' where one: "next_roll sides (low @ hi # reroll_draws segs @ rest) = Inr (r, rng')"
    "reroll_while sides thresh r rng' = Inr (die_value sides hi, reroll_draws segs @ rest)"
    by blast
  have "reroll_loop cnt sides thresh i rolls (reroll_draws (seg # segs) @ rest)
        = reroll_loop cnt sides thresh (Suc i) (rolls[i := die_value sides hi])
            (reroll_draws segs @ rest)"
    using i(1) one
    by (subst reroll_loop.simps) (simp add: draws)
  also have "\<dots> = Inr (take (Suc i) (rolls[i := die_value sides hi])
                       @ reroll_kept sides segs
                       @ drop (Suc i + length segs) (rolls[i := die_value sides hi]), rest)"
    by (rule Cons.IH[OF others n])
  finally show ?case
    using i(2) by (simp add: update_filled seg reroll_kept_def)
qed

lemma execute_reroll_below_roll_run:
  assumes "sides \<noteq> 0"
    and "\<forall>(low, hi) \<in> set segs. (\<forall>r \<in> set low. die_value sides r \<le> thresh)
                                      \<and> thresh < die_value sides hi"
  shows "execute_reroll_below_roll mem (int (length segs)) sides thresh
           (reroll_draws segs @ rest)
         = Inr (c_int (sum_list (reroll_kept sides segs)), rest)"
proof -
  let ?n = "length segs"
  have "reroll_loop (int ?n) sides thresh 0 (STACK_ALLOC mem (int ?n)) (reroll_draws segs @ rest)
        = Inr (take 0 (STACK_ALLOC mem (int ?n)) @ reroll_kept sides segs
                 @ drop (0 + ?n) (STACK_ALLOC mem (int ?n)), rest)"
    by (rule reroll_loop_run[OF assms]) (simp_all add: STACK_ALLOC_length)
  then show ?thesis
    using sum_up_take[of ?n "reroll_kept sides segs"]
    by (simp add: execute_reroll_below_roll_def STACK_ALLOC_length reroll_kept_def)
qed

text \<open>
  Claim C4. Let the random numbers be given die by die: for each of the \<open>cnt\<close> dice a
  (possibly empty) run of numbers whose die values are at most the threshold, followed
  by one whose die value is greater. Then \<open>execute_reroll_below_roll\<close> returns, consumes
  exactly these numbers, discards every value of the runs, and its result is the sum of
  the values kept, one per die, computed in \<open>int\<close>: the sum itself whenever it is at
  most 2147483647, its wrap-around otherwise. \<open>execute_roll\<close> calls it for a roll whose
  modifier is \<open>REROLL_BELOW\<close>. In particular \<open>"1d6b3"\<close> with the draws 2, 2, 5 (the
  random numbers 1, 1, 4 on a six-sided die) evaluates to 5.
\<close>

theorem C4_reroll_below:
  "(sides \<noteq> 0 \<longrightarrow>
      (\<forall>(low, hi) \<in> set segs. (\<forall>r \<in> set low. die_value sides r \<le> thresh)
                                \<and> thresh < die_value sides hi) \<longrightarrow>
      execute_reroll_below_roll mem (int (length segs)) sides thresh (reroll_draws segs @ rest)
        = Inr (c_int (sum_list (reroll_kept sides segs)), rest)
      \<and> execute_roll mem
          \<lparr>dieCount = int (length segs), dieSides = sides,
           rollMod = Some \<lparr>modType = REROLL_BELOW, modConstant = thresh\<rparr>\<rparr>
          (reroll_draws segs @ rest)
        = Inr (c_int (sum_list (reroll_kept sides segs)), rest)
      \<and> (- 2147483648 \<le> sum_list (reroll_kept sides segs) \<longrightarrow>
         sum_list (reroll_kept sides segs) \<le> 2147483647 \<longrightarrow>
         execute_reroll_below_roll mem (int (length segs)) sides thresh
           (reroll_draws segs @ rest)
         = Inr (sum_list (reroll_kept sides segs), rest)))
   \<and> map (die_value 6) [1, 1, 4] = [2, 2, 5]
   \<and> parse_expr ''1d6b3'' lit 5 A_OP =
       Parsed [] (Some (a_single (m_single (roll_obj
         \<lparr>dieCount = 1, dieSides = 6,
          rollMod = Some \<lparr>modType = REROLL_BELOW, modConstant = 3\<rparr>\<rparr>))))
   \<and> execute_expr mem0 (a_single (m_single (roll_obj
         \<lparr>dieCount = 1, dieSides = 6,
          rollMod = Some \<lparr>modType = REROLL_BELOW, modConstant = 3\<rparr>\<rparr>))) [1, 1, 4]
       = Inr (5, [])"
proof (intro conjI impI)
  assume sides: "sides \<noteq> 0"
    and segs: "\<forall>(low, hi) \<in> set segs. (\<forall>r \<in> set low. die_value sides r \<le> thresh)
                                \<and> thresh < die_value sides hi"
  note run = execute_reroll_below_roll_run[OF sides segs, of mem rest]
  show "execute_reroll_below_roll mem (int (length segs)) sides thresh (reroll_draws segs @ rest)
        = Inr (c_int (sum_list (reroll_kept sides segs)), rest)"
    by (rule run)
  show "execute_roll mem
          \<lparr>dieCount = int (length segs), dieSides = sides,
           rollMod = Some \<lparr>modType = REROLL_BELOW, modConstant = thresh\<rparr>\<rparr>
          (reroll_draws segs @ rest)
        = Inr (c_int (sum_list (reroll_kept sides segs)), rest)"
    by (simp add: execute_roll_def run)
  assume "- 2147483648 \<le> sum_list (reroll_kept sides segs)"
    and "sum_list (reroll_kept sides segs) \<le> 2147483647"
  then show "execute_reroll_below_roll mem (int (length segs)) sides thresh
           (reroll_draws segs @ rest)
         = Inr (sum_list (reroll_kept sides segs), rest)"
    by (simp add: run c_int_id)
next
  show "map (die_value 6) [1, 1, 4] = [2, 2, 5]"
    by code_simp
next
  show "parse_expr ''1d6b3'' lit 5 A_OP =
       Parsed [] (Some (a_single (m_single (roll_obj
         \<lparr>dieCount = 1, dieSides = 6,
          rollMod = Some \<lparr>modType = REROLL_BELOW, modConstant = 3\<rparr>\<rparr>))))"
    by code_simp
next
  have dv: "die_value 6 1 = 2" "die_value 6 4 = 5"
    by (simp_all add: die_value_def signed_modulo_int_def c_int_def)
  have hyp: "\<forall>(low, hi) \<in> set [([1, 1], 4)].
               (\<forall>r \<in> set low. die_value 6 r \<le> 3) \<and> 3 < die_value 6 hi"
    by (simp add: dv)
  have s: "(6::int) \<noteq> 0" by simp
  let ?segs = "[([1, 1], 4)] :: (int list \<times> int) list"
  have "execute_reroll_below_roll mem0 (int (length ?segs)) 6 3 (reroll_draws ?segs @ [])
        = Inr (c_int (sum_list (reroll_kept 6 ?segs)), [])"
    by (rule execute_reroll_below_roll_run[OF s hyp])
  then have one: "execute_reroll_below_roll mem0 1 6 3 [1, 1, 4] = Inr (5, [])"
    by (simp add: reroll_draws_def reroll_kept_def dv c_int_def)
  show "execute_expr mem0 (a_single (m_single (roll_obj
         \<lparr>dieCount = 1, dieSides = 6,
          rollMod = Some \<lparr>modType = REROLL_BELOW, modConstant = 3\<rparr>\<rparr>))) [1, 1, 4]
       = Inr (5, [])"
    by (simp add: tree_defs expr_is_singlet_def execute_roll_def one)
qed

theorem C4_reroll_below_witness:
  "(6::int) \<noteq> 0
   \<and> die_value 6 1 \<le> 3 \<and> 3 < die_value 6 4 \<and> 3 < die_value 6 3
   \<and> reroll_draws [([1, 1], 4), ([], 3)] @ [0] = [1, 1, 4, 3, 0]
   \<and> reroll_kept 6 [([1, 1], 4), ([], 3)] = [5, 4]
   \<and> execute_reroll_below_roll (\<lambda>i. 0) 2 6 3 [1, 1, 4, 3, 0] = Inr (9, [0])
   \<and> execute_roll (\<lambda>i. 0)
          \<lparr>dieCount = 2, dieSides = 6,
           rollMod = Some \<lparr>modType = REROLL_BELOW, modConstant = 3\<rparr>\<rparr> [1, 1, 4, 3, 0]
       = Inr (9, [0])"
proof -
  have dv: "die_value 6 1 = 2" "die_value 6 4 = 5" "die_value 6 3 = 4"
    by (simp_all add: die_value_def signed_modulo_int_def c_int_def)
  have draws: "reroll_draws [([1, 1], 4), ([], 3)] @ [0] = [1, 1, 4, 3, 0]"
    by (simp add: reroll_draws_def)
  have kept: "reroll_kept 6 [([1, 1], 4), ([], 3)] = [5, 4]"
    by (simp add: reroll_kept_def dv)
  have hyp: "\<forall>(low, hi) \<in> set [([1, 1], 4), ([], 3)].
               (\<forall>r \<in> set low. die_value 6 r \<le> 3) \<and> 3 < die_value 6 hi"
    by (simp add: dv)
  have s: "(6::int) \<noteq> 0" by simp
  let ?segs = "[([1, 1], 4), ([], 3)] :: (int list \<times> int) list"
  note general = C4_reroll_below[where sides = 6 and thresh = 3 and segs = ?segs
      and mem = "\<lambda>i. 0" and rest = "[0]", THEN conjunct1, THEN mp, THEN mp, OF s hyp]
  have lo: "- 2147483648 \<le> sum_list (reroll_kept 6 ?segs)"
    and up: "sum_list (reroll_kept 6 ?segs) \<le> 2147483647"
    by (simp_all add: kept)
  from general[THEN conjunct2, THEN conjunct2, THEN mp, THEN mp, OF lo up]
  have a: "execute_reroll_below_roll (\<lambda>i. 0) 2 6 3 [1, 1, 4, 3, 0] = Inr (9, [0])"
    by (simp add: draws kept)
  from general[THEN conjunct2, THEN conjunct1]
  have b: "execute_roll (\<lambda>i. 0)
          \<lparr>dieCount = 2, dieSides = 6,
           rollMod = Some \<lparr>modType = REROLL_BELOW, modConstant = 3\<rparr>\<rparr> [1, 1, 4, 3, 0]
       = Inr (9, [0])"
    by (simp add: draws kept c_int_def)
  from dv draws kept a b show ?thesis by simp
qed

subsection \<open>Exploding dice\<close>

lemma explode_while_run:
  assumes "sides \<noteq> 0"
    and "\<forall>r \<in> set ex. thresh \<le> die_value sides r"
    and "die_value sides fin < thresh"
  shows "\<exists>r rng'. next_roll sides (ex @ fin # rest) = Inr (r, rng')
           \<and> explode_while sides thresh r (c_int (acc + r)) rng'
               = Inr (c_int (acc + (sum_list (map (die_value sides) ex) + die_value sides fin)),
                      rest)"
  using assms(2)
proof (induction ex arbitrary: acc)
  case Nil
  from assms(1,3) show ?case
    by (simp add: next_roll_Cons explode_while.simps[of sides thresh "die_value sides fin"])
next
  case (Cons x ex)
  let ?x = "die_value sides x"
  let ?more = "sum_list (map (die_value sides) ex) + die_value sides fin"
  from Cons.prems have x: "thresh \<le> ?x" and rest: "\<forall>r \<in> set ex. thresh \<le> die_value sides r"
    by simp_all
  from Cons.IH[OF rest, of "c_int (acc + ?x)"]
  obtain r rng' where nxt: "next_roll sides (ex @ fin # rest) = Inr (r, rng')"
    and run: "explode_while sides thresh r (c_int (c_int (acc + ?x) + r)) rng'
              = Inr (c_int (c_int (acc + ?x) + ?more), rest)"
    by blast
  have "c_int (c_int (acc + ?x) + ?more) = c_int (acc + ?x + ?more)"
    by (rule c_int_add_left)
  also have "acc + ?x + ?more = acc + (sum_list (map (die_value sides) (x # ex))
                                        + die_value sides fin)"
    by simp
  finally have total: "c_int (c_int (acc + ?x) + ?more)
                       = c_int (acc + (sum_list (map (die_value sides) (x # ex))
                                        + die_value sides fin))" .
  have "explode_while sides thresh ?x (c_int (acc + ?x)) (ex @ fin # rest)
        = explode_while sides thresh r (c_int (c_int (acc + ?x) + r)) rng'"
    using x nxt by (subst explode_while.simps) simp
  with run total assms(1) show ?case
    by (simp add: next_roll_Cons)
qed

definition explode_draws :: "(int list \<times> int) list \<Rightarrow> int list" where
  \<comment> \<open>the random numbers of a run, die by die: those that explode, then the one that
      does not\<close>
  "explode_draws segs = concat (map (\<lambda>(ex, fin). ex @ [fin]) segs)"

definition explode_total :: "int \<Rightarrow> int list \<times> int \<Rightarrow> int" where
  \<comment> \<open>the total of one die, \<open>rollTotal\<close>: every value drawn for it, added up in \<open>int\<close>\<close>
  "explode_total sides seg =
     c_int (sum_list (map (die_value sides) (fst seg)) + die_value sides (snd seg))"

definition explode_values :: "int \<Rightarrow> (int list \<times> int) list \<Rightarrow> int list" where
  \<comment> \<open>every value drawn in a run\<close>
  "explode_values sides segs = map (die_value sides) (explode_draws segs)"

lemma explode_loop_run:
  assumes "sides \<noteq> 0"
  shows "\<lbrakk>\<forall>(ex, fin) \<in> set segs. (\<forall>r \<in> set ex. thresh \<le> die_value sides r)
                                      \<and> die_value sides fin < thresh;
          int i + int (length segs) = cnt; i + length segs \<le> length rolls\<rbrakk>
     \<Longrightarrow> explode_loop cnt sides thresh i rolls (explode_draws segs @ rest)
         = Inr (take i rolls @ map (explode_total sides) segs
                  @ drop (i + length segs) rolls, rest)"
proof (induction segs arbitrary: i rolls)
  case Nil
  then show ?case
    by (subst explode_loop.simps) (simp add: explode_draws_def)
next
  case (Cons seg segs)
  obtain ex fin where seg: "seg = (ex, fin)" by (cases seg)
  from Cons.prems(1) seg have ex: "\<forall>r \<in> set ex. thresh \<le> die_value sides r"
    and fin: "die_value sides fin < thresh"
    and others: "\<forall>(ex, fin) \<in> set segs. (\<forall>r \<in> set ex. thresh \<le> die_value sides r)
                                      \<and> die_value sides fin < thresh"
    by auto
  from Cons.prems(2,3) have i: "int i < cnt" "i < length rolls"
    and n: "int (Suc i) + int (length segs) = cnt"
      "Suc i + length segs \<le> length (rolls[i := explode_total sides seg])"
    by simp_all
  have draws: "explode_draws (seg # segs) @ rest = ex @ fin # (explode_draws segs @ rest)"
    by (simp add: explode_draws_def seg)
  from explode_while_run[OF assms ex fin, of "explode_draws segs @ rest" 0]
  obtain r rng' where one: "next_roll sides (ex @ fin # explode_draws segs @ rest) = Inr (r, rng')"
    "explode_while sides thresh r (c_int (0 + r)) rng'
       = Inr (explode_total sides seg, explode_draws segs @ rest)"
    by (auto simp: explode_total_def seg)
  have "explode_loop cnt sides thresh i rolls (explode_draws (seg # segs) @ rest)
        = explode_loop cnt sides thresh (Suc i) (rolls[i := explode_total sides seg])
            (explode_draws segs @ rest)"
    using i(1) one
    by (subst explode_loop.simps) (simp add: draws)
  also have "\<dots> = Inr (take (Suc i) (rolls[i := explode_total sides seg])
                       @ map (explode_total sides) segs
                       @ drop (Suc i + length segs) (rolls[i := explode_total sides seg]), rest)"
    by (rule Cons.IH[OF others n])
  finally show ?case
    using i(2) by (simp add: update_filled)
qed

lemma execute_exploding_roll_run:
  assumes "sides \<noteq> 0"
    and "\<forall>(ex, fin) \<in> set segs. (\<forall>r \<in> set ex. thresh \<le> die_value sides r)
                                      \<and> die_value sides fin < thresh"
  shows "execute_exploding_roll mem (int (length segs)) sides thresh
           (explode_draws segs @ rest)
         = Inr (c_int (sum_list (map (explode_total sides) segs)), rest)"
proof -
  let ?n = "length segs"
  have "explode_loop (int ?n) sides thresh 0 (STACK_ALLOC mem (int ?n)) (explode_draws segs @ rest)
        = Inr (take 0 (STACK_ALLOC mem (int ?n)) @ map (explode_total sides) segs
                 @ drop (0 + ?n) (STACK_ALLOC mem (int ?n)), rest)"
    by (rule explode_loop_run[OF assms]) (simp_all add: STACK_ALLOC_length)
  then show ?thesis
    using sum_up_take[of ?n "map (explode_total sides) segs"]
    by (simp add: execute_exploding_roll_def STACK_ALLOC_length)
qed

lemma explode_totals_values:
  "c_int (sum_list (map (explode_total sides) segs)) = c_int (sum_list (explode_values sides segs))"
proof -
  let ?t = "\<lambda>seg. sum_list (map (die_value sides) (fst seg)) + die_value sides (snd seg)"
  have "map (explode_total sides) segs = map c_int (map ?t segs)"
    by (simp add: explode_total_def)
  then have "c_int (sum_list (map (explode_total sides) segs)) = c_int (sum_list (map ?t segs))"
    by (simp only: c_int_sum_list)
  also have "sum_list (map ?t segs) = sum_list (explode_values sides segs)"
    by (induction segs) (simp_all add: explode_values_def explode_draws_def split_beta)
  finally show ?thesis .
qed

text \<open>
  Claim C5. Let the random numbers be given die by die: for each of the \<open>cnt\<close> dice a
  (possibly empty) run of numbers whose die values are at least the threshold, followed
  by one whose die value is below it. Then \<open>execute_exploding_roll\<close> returns, consumes
  exactly these numbers, and its result is the sum over the dice of the per-die total,
  which is the sum of every value drawn for that die (each exploding value and the final
  one). Both sums are \<open>int\<close> sums: the result is the sum of all values drawn whenever
  that sum is at most 2147483647, and its wrap-around otherwise. \<open>execute_roll\<close> calls
  the function for a roll whose modifier is \<open>KEEP_AND_REROLL_ABOVE\<close>. In particular
  \<open>"1d6v6"\<close> with the draws 6, 6, 2 (the random numbers 5, 5, 1 on a six-sided die)
  evaluates to 14.
\<close>

theorem C5_explode_above:
  "(sides \<noteq> 0 \<longrightarrow>
      (\<forall>(ex, fin) \<in> set segs. (\<forall>r \<in> set ex. thresh \<le> die_value sides r)
                                \<and> die_value sides fin < thresh) \<longrightarrow>
      execute_exploding_roll mem (int (length segs)) sides thresh (explode_draws segs @ rest)
        = Inr (c_int (sum_list (map (explode_total sides) segs)), rest)
      \<and> execute_roll mem
          \<lparr>dieCount = int (length segs), dieSides = sides,
           rollMod = Some \<lparr>modType = KEEP_AND_REROLL_ABOVE, modConstant = thresh\<rparr>\<rparr>
          (explode_draws segs @ rest)
        = Inr (c_int (sum_list (map (explode_total sides) segs)), rest)
      \<and> (- 2147483648 \<le> sum_list (explode_values sides segs) \<longrightarrow>
         sum_list (explode_values sides segs) \<le> 2147483647 \<longrightarrow>
         execute_exploding_roll mem (int (length segs)) sides thresh
           (explode_draws segs @ rest)
         = Inr (sum_list (explode_values sides segs), rest)))
   \<and> map (die_value 6) [5, 5, 1] = [6, 6, 2]
   \<and> parse_expr ''1d6v6'' lit 5 A_OP =
       Parsed [] (Some (a_single (m_single (roll_obj
         \<lparr>dieCount = 1, dieSides = 6,
          rollMod = Some \<lparr>modType = KEEP_AND_REROLL_ABOVE, modConstant = 6\<rparr>\<rparr>))))
   \<and> execute_expr mem0 (a_single (m_single (roll_obj
         \<lparr>dieCount = 1, dieSides = 6,
          rollMod = Some \<lparr>modType = KEEP_AND_REROLL_ABOVE, modConstant = 6\<rparr>\<rparr>))) [5, 5, 1]
       = Inr (14, [])"
proof (intro conjI impI)
  assume sides: "sides \<noteq> 0"
    and segs: "\<forall>(ex, fin) \<in> set segs. (\<forall>r \<in> set ex. thresh \<le> die_value sides r)
                                \<and> die_value sides fin < thresh"
  note run = execute_exploding_roll_run[OF sides segs, of mem rest]
  show "execute_exploding_roll mem (int (length segs)) sides thresh (explode_draws segs @ rest)
        = Inr (c_int (sum_list (map (explode_total sides) segs)), rest)"
    by (rule run)
  show "execute_roll mem
          \<lparr>dieCount = int (length segs), dieSides = sides,
           rollMod = Some \<lparr>modType = KEEP_AND_REROLL_ABOVE, modConstant = thresh\<rparr>\<rparr>
          (explode_draws segs @ rest)
        = Inr (c_int (sum_list (map (explode_total sides) segs)), rest)"
    by (simp add: execute_roll_def run)
  assume "- 2147483648 \<le> sum_list (explode_values sides segs)"
    and "sum_list (explode_values sides segs) \<le> 2147483647"
  then show "execute_exploding_roll mem (int (length segs)) sides thresh
           (explode_draws segs @ rest)
         = Inr (sum_list (explode_values sides segs), rest)"
    by (simp add: run explode_totals_values c_int_id)
next
  show "map (die_value 6) [5, 5, 1] = [6, 6, 2]"
    by code_simp
next
  show "parse_expr ''1d6v6'' lit 5 A_OP =
       Parsed [] (Some (a_single (m_single (roll_obj
         \<lparr>dieCount = 1, dieSides = 6,
          rollMod = Some \<lparr>modType = KEEP_AND_REROLL_ABOVE, modConstant = 6\<rparr>\<rparr>))))"
    by code_simp
next
  have dv: "die_value 6 5 = 6" "die_value 6 1 = 2"
    by (simp_all add: die_value_def signed_modulo_int_def c_int_def)
  have hyp: "\<forall>(ex, fin) \<in> set [([5, 5], 1)].
               (\<forall>r \<in> set ex. 6 \<le> die_value 6 r) \<and> die_value 6 fin < 6"
    by (simp add: dv)
  have s: "(6::int) \<noteq> 0" by simp
  let ?segs = "[([5, 5], 1)] :: (int list \<times> int) list"
  have "execute_exploding_roll mem0 (int (length ?segs)) 6 6 (explode_draws ?segs @ [])
        = Inr (c_int (sum_list (map (explode_total 6) ?segs)), [])"
    by (rule execute_exploding_roll_run[OF s hyp])
  then have one: "execute_exploding_roll mem0 1 6 6 [5, 5, 1] = Inr (14, [])"
    by (simp add: explode_draws_def explode_total_def dv c_int_def)
  show "execute_expr mem0 (a_single (m_single (roll_obj
         \<lparr>dieCount = 1, dieSides = 6,
          rollMod = Some \<lparr>modType = KEEP_AND_REROLL_ABOVE, modConstant = 6\<rparr>\<rparr>))) [5, 5, 1]
       = Inr (14, [])"
    by (simp add: tree_defs expr_is_singlet_def execute_roll_def one)
qed

theorem C5_explode_above_witness:
  "(6::int) \<noteq> 0
   \<and> 6 \<le> die_value 6 5 \<and> die_value 6 1 < 6 \<and> die_value 6 2 < 6
   \<and> explode_draws [([5, 5], 1), ([], 2)] @ [0] = [5, 5, 1, 2, 0]
   \<and> explode_values 6 [([5, 5], 1), ([], 2)] = [6, 6, 2, 3]
   \<and> map (explode_total 6) [([5, 5], 1), ([], 2)] = [14, 3]
   \<and> execute_exploding_roll (\<lambda>i. 0) 2 6 6 [5, 5, 1, 2, 0] = Inr (17, [0])
   \<and> execute_roll (\<lambda>i. 0)
          \<lparr>dieCount = 2, dieSides = 6,
           rollMod = Some \<lparr>modType = KEEP_AND_REROLL_ABOVE, modConstant = 6\<rparr>\<rparr>
          [5, 5, 1, 2, 0]
       = Inr (17, [0])"
proof -
  have dv: "die_value 6 5 = 6" "die_value 6 1 = 2" "die_value 6 2 = 3"
    by (simp_all add: die_value_def signed_modulo_int_def c_int_def)
  have draws: "explode_draws [([5, 5], 1), ([], 2)] @ [0] = [5, 5, 1, 2, 0]"
    by (simp add: explode_draws_def)
  have vals: "explode_values 6 [([5, 5], 1), ([], 2)] = [6, 6, 2, 3]"
    by (simp add: explode_values_def explode_draws_def dv)
  have tot: "explode_total 6 ([5, 5], 1) = 14" "explode_total 6 ([], 2) = 3"
    by (simp_all add: explode_total_def dv c_int_def)
  then have totals: "map (explode_total 6) [([5, 5], 1), ([], 2)] = [14, 3]"
    by simp
  have hyp: "\<forall>(ex, fin) \<in> set [([5, 5], 1), ([], 2)].
               (\<forall>r \<in> set ex. 6 \<le> die_value 6 r) \<and> die_value 6 fin < 6"
    by (simp add: dv)
  have s: "(6::int) \<noteq> 0" by simp
  let ?segs = "[([5, 5], 1), ([], 2)] :: (int list \<times> int) list"
  note general = C5_explode_above[where sides = 6 and thresh = 6 and segs = ?segs
      and mem = "\<lambda>i. 0" and rest = "[0]", THEN conjunct1, THEN mp, THEN mp, OF s hyp]
  have lo: "- 2147483648 \<le> sum_list (explode_values 6 ?segs)"
    and up: "sum_list (explode_values 6 ?segs) \<le> 2147483647"
    by (simp_all add: vals)
  from general[THEN conjunct2, THEN conjunct2, THEN mp, THEN mp, OF lo up]
  have a: "execute_exploding_roll (\<lambda>i. 0) 2 6 6 [5, 5, 1, 2, 0] = Inr (17, [0])"
    by (simp add: draws vals)
  from general[THEN conjunct2, THEN conjunct1]
  have b: "execute_roll (\<lambda>i. 0)
          \<lparr>dieCount = 2, dieSides = 6,
           rollMod = Some \<lparr>modType = KEEP_AND_REROLL_ABOVE, modConstant = 6\<rparr>\<rparr>
          [5, 5, 1, 2, 0]
       = Inr (17, [0])"
    by (simp add: draws tot c_int_def)
  from dv draws vals totals a b show ?thesis by simp
qed

subsection \<open>Choosing the highest or lowest dice\<close>

text \<open>
  The two comparators subtract in \<open>int\<close>. On values between 0 and 2147483647 (every
  value of a die lies there when the random numbers are not negative and the die has
  between 1 and 2147483647 sides, \<open>die_value_pos\<close>) the difference does not wrap, and
  the model of \<open>qsort\<close> is the library's insertion sort on a key: the value itself for
  \<open>compare_roll_low\<close>, its negation for \<open>compare_roll_high\<close>.
\<close>

definition die_ok :: "int \<Rightarrow> bool" where
  "die_ok v \<longleftrightarrow> 0 \<le> v \<and> v \<le> 2147483647"

lemma die_ok_die_value: "die_ok (die_value sides r) \<longleftrightarrow> 0 \<le> die_value sides r"
  using die_value_range[of sides r] by (auto simp: die_ok_def)

lemma insert_by_insort_key:
  "\<forall>y \<in> set zs. (cmp v y \<le> 0) = (f v \<le> f y) \<Longrightarrow> insert_by cmp v zs = insort_key f v zs"
  by (induction zs) simp_all

lemma foldr_insert_by_sort_key:
  "\<forall>x \<in> set xs. \<forall>y \<in> set xs. (cmp x y \<le> 0) = (f x \<le> f y)
     \<Longrightarrow> foldr (insert_by cmp) xs [] = sort_key f xs"
proof (induction xs)
  case Nil
  show ?case by simp
next
  case (Cons x xs)
  from Cons.prems have "\<forall>a \<in> set xs. \<forall>b \<in> set xs. (cmp a b \<le> 0) = (f a \<le> f b)"
    by simp
  from Cons.IH[OF this] have "foldr (insert_by cmp) (x # xs) [] = insert_by cmp x (sort_key f xs)"
    by simp
  also from Cons.prems have "\<dots> = insort_key f x (sort_key f xs)"
    by (intro insert_by_insort_key) simp
  finally show ?case by simp
qed

lemma qsort_whole:
  assumes "\<forall>x \<in> set base. \<forall>y \<in> set base. (cmp x y \<le> 0) = (f x \<le> f y)"
    and "length base = n"
  shows "qsort base (int n) cmp = sort_key f base"
  using foldr_insert_by_sort_key[OF assms(1)] assms(2) by (simp add: qsort_def)

lemma compare_roll_low_key:
  "die_ok x \<Longrightarrow> die_ok y \<Longrightarrow> (compare_roll_low x y \<le> 0) = (x \<le> y)"
  by (simp add: compare_roll_low_def die_ok_def c_int_id)

lemma compare_roll_high_key:
  "die_ok x \<Longrightarrow> die_ok y \<Longrightarrow> (compare_roll_high x y \<le> 0) = (- x \<le> - y)"
  by (simp add: compare_roll_high_def die_ok_def c_int_id)

lemma key_sorted_unique:
  fixes f :: "int \<Rightarrow> int"
  assumes "inj f" and "mset ys = mset zs" and "sorted (map f ys)" and "sorted (map f zs)"
  shows "ys = zs"
proof -
  from assms(2) have m: "mset (map f ys) = mset (map f zs)" by simp
  have "sort (map f zs) = map f ys"
    by (rule properties_for_sort[OF m assms(3)])
  moreover have "sort (map f zs) = map f zs"
    by (rule properties_for_sort[OF refl assms(4)])
  ultimately have "map f ys = map f zs" by simp
  with assms(1) show ?thesis by (simp add: inj_map_eq_map)
qed

lemma sort_key_mset_cong:
  fixes f :: "int \<Rightarrow> int"
  assumes "inj f" and "mset xs = mset ys"
  shows "sort_key f xs = sort_key f ys"
  by (rule key_sorted_unique[OF assms(1)]) (simp_all add: assms(2) sorted_sort_key)

lemma sort_key_snoc:
  fixes f :: "int \<Rightarrow> int"
  assumes "inj f" and "sorted (map f zs)"
  shows "sort_key f (zs @ [v]) = insort_key f v zs"
  by (rule key_sorted_unique[OF assms(1)])
    (simp_all add: sorted_sort_key sorted_insort_key assms(2))

lemma take_insort_key_take:
  "take n (insort_key f v (take n zs)) = take n (insort_key f v zs)"
proof (induction zs arbitrary: n)
  case Nil
  show ?case by simp
next
  case (Cons z zs)
  show ?case
  proof (cases n)
    case 0
    then show ?thesis by simp
  next
    case (Suc m)
    have "take m (z # take m zs) = take m (z # zs)"
      by (cases m) simp_all
    with Suc Cons.IH[of m] show ?thesis by simp
  qed
qed

lemma top_n_step:
  fixes f :: "int \<Rightarrow> int"
  assumes "inj f" and "mset kept = mset (take n (sort_key f ys))"
  shows "mset (take n (sort_key f (kept @ [v]))) = mset (take n (sort_key f (ys @ [v])))"
proof -
  let ?top = "take n (sort_key f ys)"
  have sorted_top: "sorted (map f ?top)"
    using sorted_sort_key[of f ys] by (simp add: take_map[symmetric] sorted_wrt_take)
  have "sort_key f (kept @ [v]) = sort_key f (?top @ [v])"
    by (rule sort_key_mset_cong[OF assms(1)]) (simp add: assms(2))
  also have "\<dots> = insort_key f v ?top"
    by (rule sort_key_snoc[OF assms(1) sorted_top])
  finally have "take n (sort_key f (kept @ [v])) = take n (insort_key f v (sort_key f ys))"
    by (simp add: take_insort_key_take)
  also have "insort_key f v (sort_key f ys) = sort_key f (sort_key f ys @ [v])"
    by (rule sort_key_snoc[OF assms(1), THEN sym]) (rule sorted_sort_key)
  also have "\<dots> = sort_key f (ys @ [v])"
    by (rule sort_key_mset_cong[OF assms(1)]) simp
  finally show ?thesis by simp
qed

lemma sort_key_uminus_rev: "sort_key uminus xs = rev (sort (xs :: int list))"
proof -
  have "sorted (map uminus (sort_key uminus xs))" by (rule sorted_sort_key)
  then have "sorted (rev (sort_key uminus xs))"
    by (simp add: sorted_wrt_rev sorted_map) 
  then have "sort xs = rev (sort_key uminus xs)"
    by (intro properties_for_sort) simp_all
  then show ?thesis by simp
qed

lemma choose_loop_fill:
  assumes "sides \<noteq> 0" and "length rolls = Suc n"
  shows "\<lbrakk>i + length xs \<le> n; int i + int (length xs) \<le> cnt\<rbrakk>
     \<Longrightarrow> choose_loop cnt sides (int n) cmp i rolls (int i) (xs @ rest)
         = choose_loop cnt sides (int n) cmp (i + length xs)
             (take i rolls @ map (die_value sides) xs @ drop (i + length xs) rolls)
             (int (i + length xs)) rest"
  using assms(2)
proof (induction xs arbitrary: i rolls)
  case Nil
  then show ?case by simp
next
  case (Cons x xs)
  let ?v = "die_value sides x"
  from Cons.prems have i: "int i < cnt" "i < n" "i < length rolls"
    and n: "Suc i + length xs \<le> n" "int (Suc i) + int (length xs) \<le> cnt"
      "length (rolls[i := ?v]) = Suc n"
    by simp_all
  have "choose_loop cnt sides (int n) cmp i rolls (int i) ((x # xs) @ rest)
        = choose_loop cnt sides (int n) cmp (Suc i) (rolls[i := ?v]) (int (Suc i)) (xs @ rest)"
    using i assms(1)
    by (simp add: choose_loop.simps[of cnt sides "int n" cmp i rolls "int i"] next_roll_Cons
        add.commute)
  also note Cons.IH[OF n]
  finally show ?case
    using i(3) by (simp add: update_filled)
qed

lemma array_size: "int n < 2147483647 \<Longrightarrow> c_int (int n + 1) = int n + 1"
  by (simp add: c_int_id)

lemma choose_loop_sort:
  fixes f :: "int \<Rightarrow> int"
  assumes "sides \<noteq> 0"
    and "\<And>x y. die_ok x \<Longrightarrow> die_ok y \<Longrightarrow> (cmp x y \<le> 0) = (f x \<le> f y)"
    and "inj f" and "int n < 2147483647"
  shows "\<lbrakk>length rolls = Suc n; mset (take n rolls) = mset (take n (sort_key f ys));
          int i + int (length xs) = cnt; \<forall>y \<in> set ys. die_ok y;
          \<forall>x \<in> set xs. die_ok (die_value sides x)\<rbrakk>
     \<Longrightarrow> \<exists>rolls'. choose_loop cnt sides (int n) cmp i rolls (int n) (xs @ rest) = Inr (rolls', rest)
           \<and> length rolls' = Suc n
           \<and> mset (take n rolls')
               = mset (take n (sort_key f (ys @ map (die_value sides) xs)))"
proof (induction xs arbitrary: i rolls ys)
  case Nil
  then show ?case
    by (simp add: choose_loop.simps[of cnt sides "int n" cmp i rolls "int n"])
next
  case (Cons x xs)
  let ?v = "die_value sides x"
  let ?next = "qsort (rolls[n := ?v]) (int n + 1) cmp"
  from Cons.prems have i: "int i < cnt" and n: "int (Suc i) + int (length xs) = cnt"
    and v: "die_ok ?v" and more: "\<forall>x \<in> set xs. die_ok (die_value sides x)"
    by simp_all
  from Cons.prems(1) have upd: "rolls[n := ?v] = take n rolls @ [?v]"
    by (simp add: upd_conv_take_nth_drop)
  from Cons.prems(2) have "set (take n rolls) = set (take n (sort_key f ys))"
    by (rule mset_eq_setD)
  also have "\<dots> \<subseteq> set ys"
    using set_take_subset[of n "sort_key f ys"] by simp
  finally have kept: "\<forall>y \<in> set (take n rolls). die_ok y"
    using Cons.prems(4) by blast
  with v have "\<forall>a \<in> set (rolls[n := ?v]). die_ok a"
    unfolding upd by simp
  then have "\<forall>a \<in> set (rolls[n := ?v]). \<forall>b \<in> set (rolls[n := ?v]).
               (cmp a b \<le> 0) = (f a \<le> f b)"
    using assms(2) by blast
  moreover from Cons.prems(1) have "length (rolls[n := ?v]) = Suc n" by simp
  ultimately have "qsort (rolls[n := ?v]) (int (Suc n)) cmp = sort_key f (rolls[n := ?v])"
    by (rule qsort_whole)
  then have next_eq: "?next = sort_key f (take n rolls @ [?v])"
    by (simp add: upd add.commute)
  then have len: "length ?next = Suc n"
    using Cons.prems(1) by simp
  have top: "mset (take n ?next) = mset (take n (sort_key f (ys @ [?v])))"
    unfolding next_eq by (rule top_n_step[OF assms(3) Cons.prems(2)])
  from Cons.prems(4) v have ys': "\<forall>y \<in> set (ys @ [?v]). die_ok y"
    by simp
  have "choose_loop cnt sides (int n) cmp i rolls (int n) ((x # xs) @ rest)
        = choose_loop cnt sides (int n) cmp (Suc i) ?next (int n) (xs @ rest)"
    using i assms(1)
    by (simp add: choose_loop.simps[of cnt sides "int n" cmp i rolls "int n"] next_roll_Cons
        array_size[OF assms(4)])
  with Cons.IH[OF len top n ys' more] show ?case by simp
qed

lemma execute_choose_n_roll_top:
  fixes f :: "int \<Rightarrow> int"
  assumes "sides \<noteq> 0"
    and "\<And>x y. die_ok x \<Longrightarrow> die_ok y \<Longrightarrow> (cmp x y \<le> 0) = (f x \<le> f y)"
    and "inj f" and "int n < 2147483647"
    and "n \<le> length xs" and "\<forall>x \<in> set xs. die_ok (die_value sides x)"
  shows "execute_choose_n_roll mem (int (length xs)) sides (int n) cmp (xs @ rest)
         = Inr (c_int (sum_list (take n (sort_key f (map (die_value sides) xs)))), rest)"
proof -
  let ?cnt = "int (length xs)"
  let ?a = "STACK_ALLOC mem (int n + 1)"
  define first where "first = take n xs"
  define more where "more = drop n xs"
  from assms(5) have xs: "xs = first @ more" and lf: "length first = n"
    by (simp_all add: first_def more_def)
  let ?filled = "take 0 ?a @ map (die_value sides) first @ drop (0 + length first) ?a"
  have a: "length ?a = Suc n" by (simp add: STACK_ALLOC_def)
  have "choose_loop ?cnt sides (int n) cmp 0 ?a (int 0) (first @ (more @ rest))
        = choose_loop ?cnt sides (int n) cmp (0 + length first) ?filled
            (int (0 + length first)) (more @ rest)"
    by (intro choose_loop_fill[OF assms(1) a]) (simp_all add: lf xs)
  then have fill: "choose_loop ?cnt sides (int n) cmp 0 ?a 0 (xs @ rest)
        = choose_loop ?cnt sides (int n) cmp n ?filled (int n) (more @ rest)"
    by (simp add: lf xs)
  have fl: "length ?filled = Suc n" using a lf by simp
  have ft: "take n ?filled = map (die_value sides) first" using lf by simp
  have inv: "mset (take n ?filled) = mset (take n (sort_key f (map (die_value sides) first)))"
    using lf by (simp add: ft)
  have rem: "int n + int (length more) = ?cnt" using lf by (simp add: xs)
  from assms(6) have ok_first: "\<forall>y \<in> set (map (die_value sides) first). die_ok y"
    and ok_more: "\<forall>x \<in> set more. die_ok (die_value sides x)"
    by (simp_all add: xs)
  from choose_loop_sort[OF assms(1,2,3,4) fl inv rem ok_first ok_more, of rest]
  obtain rolls' where r: "choose_loop ?cnt sides (int n) cmp n ?filled (int n) (more @ rest)
                            = Inr (rolls', rest)"
    and l: "length rolls' = Suc n"
    and m: "mset (take n rolls') = mset (take n (sort_key f
              (map (die_value sides) first @ map (die_value sides) more)))"
    by blast
  from m have "mset (take n rolls') = mset (take n (sort_key f (map (die_value sides) xs)))"
    by (simp add: xs)
  then have "sum_list (take n rolls') = sum_list (take n (sort_key f (map (die_value sides) xs)))"
    by (metis sum_mset_sum_list)
  moreover from l have "sum_up rolls' (int n) = c_int (sum_list (take n rolls'))"
    by (simp add: sum_up_take)
  ultimately show ?thesis
    using fill r assms(4) by (simp add: execute_choose_n_roll_def array_size)
qed

lemma execute_choose_n_roll_short:
  assumes "sides \<noteq> 0" and "length xs < n" and "int n < 2147483647"
  shows "execute_choose_n_roll mem (int (length xs)) sides (int n) cmp (xs @ rest)
         = Inr (c_int (sum_list (map (die_value sides) xs)
                       + sum_list (map mem [length xs..<n])), rest)"
proof -
  let ?cnt = "int (length xs)"
  let ?a = "STACK_ALLOC mem (int n + 1)"
  let ?filled = "take 0 ?a @ map (die_value sides) xs @ drop (0 + length xs) ?a"
  have a: "length ?a = Suc n" by (simp add: STACK_ALLOC_def)
  have "choose_loop ?cnt sides (int n) cmp 0 ?a (int 0) (xs @ rest)
        = choose_loop ?cnt sides (int n) cmp (0 + length xs) ?filled (int (0 + length xs)) rest"
    using assms(2) by (intro choose_loop_fill[OF assms(1) a]) simp_all
  also have "\<dots> = Inr (?filled, rest)"
    by (simp add: choose_loop.simps[of ?cnt sides "int n" cmp "length xs"])
  finally have loop: "choose_loop ?cnt sides (int n) cmp 0 ?a 0 (xs @ rest) = Inr (?filled, rest)"
    by simp
  have "nat (int n + 1) = Suc n" by simp
  then have "drop (length xs) ?a = map mem [length xs..<Suc n]"
    by (simp only: STACK_ALLOC_def drop_map drop_upt) simp
  moreover from assms(2) have "take (n - length xs) (map mem [length xs..<Suc n])
                                 = map mem [length xs..<n]"
    by (simp add: take_map)
  ultimately have "take n ?filled = map (die_value sides) xs @ map mem [length xs..<n]"
    using assms(2) by simp
  moreover have "sum_up ?filled (int n) = c_int (sum_list (take n ?filled))"
    using a assms(2) by (intro sum_up_take) simp
  ultimately show ?thesis
    using loop assms(3) by (simp add: execute_choose_n_roll_def array_size)
qed

lemma choose_high:
  assumes "sides \<noteq> 0" and "n \<le> length xs" and "int n < 2147483647"
    and "\<forall>x \<in> set xs. 0 \<le> die_value sides x"
  shows "execute_choose_n_roll mem (int (length xs)) sides (int n) compare_roll_high (xs @ rest)
         = Inr (c_int (sum_list (take n (rev (sort (map (die_value sides) xs))))), rest)"
proof -
  from assms(4) have ok: "\<forall>x \<in> set xs. die_ok (die_value sides x)"
    by (simp add: die_ok_die_value)
  from execute_choose_n_roll_top[OF assms(1) compare_roll_high_key _ assms(3,2) ok,
      where mem = mem and rest = rest]
  show ?thesis
    by (simp add: sort_key_uminus_rev)
qed

lemma choose_low:
  assumes "sides \<noteq> 0" and "n \<le> length xs" and "int n < 2147483647"
    and "\<forall>x \<in> set xs. 0 \<le> die_value sides x"
  shows "execute_choose_n_roll mem (int (length xs)) sides (int n) compare_roll_low (xs @ rest)
         = Inr (c_int (sum_list (take n (sort (map (die_value sides) xs)))), rest)"
proof -
  from assms(4) have ok: "\<forall>x \<in> set xs. die_ok (die_value sides x)"
    by (simp add: die_ok_die_value)
  from execute_choose_n_roll_top[OF assms(1) compare_roll_low_key _ assms(3,2) ok,
      where mem = mem and rest = rest and f = "\<lambda>x. x"]
  show ?thesis
    by simp
qed

lemma sort_die_values_perm:
  assumes "mset ys = mset xs"
  shows "sort (map (die_value sides) ys) = sort (map (die_value sides) xs)"
    and "length ys = length xs"
    and "(\<forall>x \<in> set ys. 0 \<le> die_value sides x) = (\<forall>x \<in> set xs. 0 \<le> die_value sides x)"
proof -
  from assms have "mset (map (die_value sides) ys) = mset (map (die_value sides) xs)" by simp
  then have "mset (sort (map (die_value sides) xs)) = mset (map (die_value sides) ys)" by simp
  then show "sort (map (die_value sides) ys) = sort (map (die_value sides) xs)"
    by (rule properties_for_sort) simp
  from assms show "length ys = length xs" by (rule mset_eq_length)
  from assms have "set ys = set xs" by (rule mset_eq_setD)
  then show "(\<forall>x \<in> set ys. 0 \<le> die_value sides x) = (\<forall>x \<in> set xs. 0 \<le> die_value sides x)"
    by simp
qed

text \<open>
  Claim C1. With at least \<open>n\<close> dice, each showing a value that is not negative,
  \<open>execute_choose_n_roll\<close> returns the sum of the \<open>n\<close> largest die values under
  \<open>compare_roll_high\<close> (the first \<open>n\<close> of the values in descending order) and of the
  \<open>n\<close> smallest under \<open>compare_roll_low\<close>; it consumes one random number per die, and
  the contents of the uninitialised array do not matter. \<open>execute_roll\<close> passes
  \<open>compare_roll_high\<close> for the modifier \<open>CHOOSE_HIGH\<close> and \<open>compare_roll_low\<close> for
  \<open>CHOOSE_LOW\<close>. The sum is an \<open>int\<close> sum: it is the sum itself whenever that is at
  most 2147483647, and its wrap-around otherwise. The result is a function of the sorted
  values, so it is the same for any other order of the same random numbers. (The statement
  holds for every \<open>n\<close> up to the number of dice, \<open>n = 0\<close> included; \<open>n\<close> is below
  2147483647 because the array has \<open>n + 1\<close> elements.) In particular \<open>"4d6c2"\<close> with
  the draws 1, 6, 3, 4 (the random numbers 0, 5, 2, 3 on a six-sided die) evaluates
  to 10, and \<open>"4d6w2"\<close> with the same draws to 4.
\<close>

theorem C1_choose_n:
  "(sides \<noteq> 0 \<longrightarrow> n \<le> length xs \<longrightarrow> int n < 2147483647 \<longrightarrow>
    (\<forall>x \<in> set xs. 0 \<le> die_value sides x) \<longrightarrow>
      execute_choose_n_roll mem (int (length xs)) sides (int n) compare_roll_high (xs @ rest)
        = Inr (c_int (sum_list (take n (rev (sort (map (die_value sides) xs))))), rest)
      \<and> execute_choose_n_roll mem (int (length xs)) sides (int n) compare_roll_low (xs @ rest)
        = Inr (c_int (sum_list (take n (sort (map (die_value sides) xs)))), rest)
      \<and> execute_roll mem
          \<lparr>dieCount = int (length xs), dieSides = sides,
           rollMod = Some \<lparr>modType = CHOOSE_HIGH, modConstant = int n\<rparr>\<rparr> (xs @ rest)
        = Inr (c_int (sum_list (take n (rev (sort (map (die_value sides) xs))))), rest)
      \<and> execute_roll mem
          \<lparr>dieCount = int (length xs), dieSides = sides,
           rollMod = Some \<lparr>modType = CHOOSE_LOW, modConstant = int n\<rparr>\<rparr> (xs @ rest)
        = Inr (c_int (sum_list (take n (sort (map (die_value sides) xs)))), rest)
      \<and> (sum_list (take n (rev (sort (map (die_value sides) xs)))) \<le> 2147483647 \<longrightarrow>
           execute_choose_n_roll mem (int (length xs)) sides (int n) compare_roll_high
             (xs @ rest)
           = Inr (sum_list (take n (rev (sort (map (die_value sides) xs)))), rest))
      \<and> (sum_list (take n (sort (map (die_value sides) xs))) \<le> 2147483647 \<longrightarrow>
           execute_choose_n_roll mem (int (length xs)) sides (int n) compare_roll_low
             (xs @ rest)
           = Inr (sum_list (take n (sort (map (die_value sides) xs))), rest)))
   \<and> (sides \<noteq> 0 \<longrightarrow> n \<le> length xs \<longrightarrow> int n < 2147483647 \<longrightarrow>
      (\<forall>x \<in> set xs. 0 \<le> die_value sides x) \<longrightarrow> mset ys = mset xs \<longrightarrow>
      execute_choose_n_roll mem (int (length ys)) sides (int n) compare_roll_high (ys @ rest)
        = execute_choose_n_roll mem (int (length xs)) sides (int n) compare_roll_high (xs @ rest)
      \<and> execute_choose_n_roll mem (int (length ys)) sides (int n) compare_roll_low (ys @ rest)
        = execute_choose_n_roll mem (int (length xs)) sides (int n) compare_roll_low (xs @ rest))
   \<and> map (die_value 6) [0, 5, 2, 3] = [1, 6, 3, 4]
   \<and> parse_expr ''4d6c2'' lit 5 A_OP =
       Parsed [] (Some (a_single (m_single (roll_obj
         \<lparr>dieCount = 4, dieSides = 6,
          rollMod = Some \<lparr>modType = CHOOSE_HIGH, modConstant = 2\<rparr>\<rparr>))))
   \<and> execute_expr mem0 (a_single (m_single (roll_obj
         \<lparr>dieCount = 4, dieSides = 6,
          rollMod = Some \<lparr>modType = CHOOSE_HIGH, modConstant = 2\<rparr>\<rparr>))) [0, 5, 2, 3]
       = Inr (10, [])
   \<and> parse_expr ''4d6w2'' lit 5 A_OP =
       Parsed [] (Some (a_single (m_single (roll_obj
         \<lparr>dieCount = 4, dieSides = 6,
          rollMod = Some \<lparr>modType = CHOOSE_LOW, modConstant = 2\<rparr>\<rparr>))))
   \<and> execute_expr mem0 (a_single (m_single (roll_obj
         \<lparr>dieCount = 4, dieSides = 6,
          rollMod = Some \<lparr>modType = CHOOSE_LOW, modConstant = 2\<rparr>\<rparr>))) [0, 5, 2, 3]
       = Inr (4, [])"
proof -
  have nonneg: "0 \<le> sum_list (take k zs)" if "\<forall>z \<in> set zs. (0::int) \<le> z" for k zs
  proof (rule sum_list_nonneg)
    fix z assume "z \<in> set (take k zs)"
    then have "z \<in> set zs" by (rule in_set_takeD)
    with that show "0 \<le> z" by simp
  qed
  have parse_c: "parse_expr ''4d6c2'' lit 5 A_OP =
       Parsed [] (Some (a_single (m_single (roll_obj
         \<lparr>dieCount = 4, dieSides = 6,
          rollMod = Some \<lparr>modType = CHOOSE_HIGH, modConstant = 2\<rparr>\<rparr>))))"
    by code_simp
  have parse_w: "parse_expr ''4d6w2'' lit 5 A_OP =
       Parsed [] (Some (a_single (m_single (roll_obj
         \<lparr>dieCount = 4, dieSides = 6,
          rollMod = Some \<lparr>modType = CHOOSE_LOW, modConstant = 2\<rparr>\<rparr>))))"
    by code_simp
  have dv: "die_value 6 0 = 1" "die_value 6 5 = 6" "die_value 6 2 = 3" "die_value 6 3 = 4"
    by (simp_all add: die_value_def signed_modulo_int_def c_int_def)
  then have vals: "map (die_value 6) [0, 5, 2, 3] = [1, 6, 3, 4]"
    by simp
  have ex: "(6::int) \<noteq> 0" "2 \<le> length [0, 5, 2, 3 :: int]" "int 2 < 2147483647"
    "\<forall>x \<in> set [0, 5, 2, 3]. 0 \<le> die_value 6 x"
    by (simp_all add: dv)
  have "execute_choose_n_roll mem0 (int (length [0, 5, 2, 3 :: int])) 6 (int 2) compare_roll_high
          ([0, 5, 2, 3] @ [])
        = Inr (c_int (sum_list (take 2 (rev (sort (map (die_value 6) [0, 5, 2, 3]))))), [])"
    by (rule choose_high[OF ex])
  then have one_c: "execute_choose_n_roll mem0 4 6 2 compare_roll_high [0, 5, 2, 3] = Inr (10, [])"
    by (simp add: dv c_int_def)
  have "execute_choose_n_roll mem0 (int (length [0, 5, 2, 3 :: int])) 6 (int 2) compare_roll_low
          ([0, 5, 2, 3] @ [])
        = Inr (c_int (sum_list (take 2 (sort (map (die_value 6) [0, 5, 2, 3])))), [])"
    by (rule choose_low[OF ex])
  then have one_w: "execute_choose_n_roll mem0 4 6 2 compare_roll_low [0, 5, 2, 3] = Inr (4, [])"
    by (simp add: dv c_int_def)
  have run_c: "execute_expr mem0 (a_single (m_single (roll_obj
         \<lparr>dieCount = 4, dieSides = 6,
          rollMod = Some \<lparr>modType = CHOOSE_HIGH, modConstant = 2\<rparr>\<rparr>))) [0, 5, 2, 3]
       = Inr (10, [])"
    by (simp add: tree_defs expr_is_singlet_def execute_roll_def one_c)
  have run_w: "execute_expr mem0 (a_single (m_single (roll_obj
         \<lparr>dieCount = 4, dieSides = 6,
          rollMod = Some \<lparr>modType = CHOOSE_LOW, modConstant = 2\<rparr>\<rparr>))) [0, 5, 2, 3]
       = Inr (4, [])"
    by (simp add: tree_defs expr_is_singlet_def execute_roll_def one_w)
  show ?thesis
  proof (intro conjI impI)
    assume h: "sides \<noteq> 0" "n \<le> length xs" "int n < 2147483647"
      "\<forall>x \<in> set xs. 0 \<le> die_value sides x"
    note high = choose_high[OF h, where mem = mem and rest = rest] and low = choose_low[OF h, where mem = mem and rest = rest]
    from h(4) have all: "\<forall>z \<in> set (rev (sort (map (die_value sides) xs))). 0 \<le> z"
      "\<forall>z \<in> set (sort (map (die_value sides) xs)). 0 \<le> z"
      by simp_all
    show "execute_choose_n_roll mem (int (length xs)) sides (int n) compare_roll_high
                 (xs @ rest)
               = Inr (c_int (sum_list (take n (rev (sort (map (die_value sides) xs))))), rest)"
      by (rule high)
    show "execute_choose_n_roll mem (int (length xs)) sides (int n) compare_roll_low
                 (xs @ rest)
               = Inr (c_int (sum_list (take n (sort (map (die_value sides) xs)))), rest)"
      by (rule low)
    show "execute_roll mem
          \<lparr>dieCount = int (length xs), dieSides = sides,
           rollMod = Some \<lparr>modType = CHOOSE_HIGH, modConstant = int n\<rparr>\<rparr> (xs @ rest)
        = Inr (c_int (sum_list (take n (rev (sort (map (die_value sides) xs))))), rest)"
      by (simp add: execute_roll_def high)
    show "execute_roll mem
          \<lparr>dieCount = int (length xs), dieSides = sides,
           rollMod = Some \<lparr>modType = CHOOSE_LOW, modConstant = int n\<rparr>\<rparr> (xs @ rest)
        = Inr (c_int (sum_list (take n (sort (map (die_value sides) xs)))), rest)"
      by (simp add: execute_roll_def low)
    {
      assume "sum_list (take n (rev (sort (map (die_value sides) xs)))) \<le> 2147483647"
      with nonneg[OF all(1), of n]
      show "execute_choose_n_roll mem (int (length xs)) sides (int n) compare_roll_high
             (xs @ rest)
           = Inr (sum_list (take n (rev (sort (map (die_value sides) xs)))), rest)"
        by (simp only: high c_int_id)
    }
    {
      assume "sum_list (take n (sort (map (die_value sides) xs))) \<le> 2147483647"
      with nonneg[OF all(2), of n]
      show "execute_choose_n_roll mem (int (length xs)) sides (int n) compare_roll_low
             (xs @ rest)
           = Inr (sum_list (take n (sort (map (die_value sides) xs))), rest)"
        by (simp only: low c_int_id)
    }
  next
    assume h: "sides \<noteq> 0" "n \<le> length xs" "int n < 2147483647"
      "\<forall>x \<in> set xs. 0 \<le> die_value sides x"
      and m: "mset ys = mset xs"
    note perm = sort_die_values_perm(1)[OF m, where sides = sides] sort_die_values_perm(2)[OF m]
      sort_die_values_perm(3)[OF m, where sides = sides]
    from perm h have h': "n \<le> length ys" "\<forall>x \<in> set ys. 0 \<le> die_value sides x"
      by simp_all
    from choose_high[OF h, where mem = mem and rest = rest] choose_high[OF h(1) h'(1) h(3) h'(2), where mem = mem and rest = rest] perm
    show "execute_choose_n_roll mem (int (length ys)) sides (int n) compare_roll_high
            (ys @ rest)
          = execute_choose_n_roll mem (int (length xs)) sides (int n) compare_roll_high
              (xs @ rest)"
      by simp
    from choose_low[OF h, where mem = mem and rest = rest] choose_low[OF h(1) h'(1) h(3) h'(2), where mem = mem and rest = rest] perm
    show "execute_choose_n_roll mem (int (length ys)) sides (int n) compare_roll_low
            (ys @ rest)
          = execute_choose_n_roll mem (int (length xs)) sides (int n) compare_roll_low
              (xs @ rest)"
      by simp
  qed (rule vals parse_c parse_w run_c run_w)+
qed

theorem C1_choose_n_witness:
  "(6::int) \<noteq> 0 \<and> (2::nat) \<le> length [0, 5, 2, 3 :: int] \<and> int 2 < 2147483647
   \<and> map (die_value 6) [0, 5, 2, 3] = [1, 6, 3, 4]
   \<and> execute_choose_n_roll (\<lambda>i. 0) 4 6 2 compare_roll_high [0, 5, 2, 3, 7] = Inr (10, [7])
   \<and> execute_choose_n_roll (\<lambda>i. 0) 4 6 2 compare_roll_low [0, 5, 2, 3, 7] = Inr (4, [7])
   \<and> execute_roll (\<lambda>i. 0)
          \<lparr>dieCount = 4, dieSides = 6,
           rollMod = Some \<lparr>modType = CHOOSE_HIGH, modConstant = 2\<rparr>\<rparr> [0, 5, 2, 3, 7]
       = Inr (10, [7])
   \<and> execute_roll (\<lambda>i. 0)
          \<lparr>dieCount = 4, dieSides = 6,
           rollMod = Some \<lparr>modType = CHOOSE_LOW, modConstant = 2\<rparr>\<rparr> [0, 5, 2, 3, 7]
       = Inr (4, [7])
   \<and> execute_choose_n_roll (\<lambda>i. 0) 4 6 2 compare_roll_high [3, 2, 5, 0, 7] = Inr (10, [7])"
proof -
  have s: "(6::int) \<noteq> 0" and n: "(2::nat) \<le> length [0, 5, 2, 3 :: int]"
    and k: "int 2 < 2147483647"
    by simp_all
  have dv: "die_value 6 0 = 1" "die_value 6 5 = 6" "die_value 6 2 = 3" "die_value 6 3 = 4"
    by (simp_all add: die_value_def signed_modulo_int_def c_int_def)
  then have vals: "map (die_value 6) [0, 5, 2, 3] = [1, 6, 3, 4]"
    by simp
  have pos: "\<forall>x \<in> set [0, 5, 2, 3]. 0 \<le> die_value 6 x"
    by (simp add: dv)
  have perm: "mset [3, 2, 5, 0] = mset [0, 5, 2, 3 :: int]"
    by (simp add: add.commute add.left_commute)
  note general = C1_choose_n[where sides = 6 and n = 2 and xs = "[0, 5, 2, 3]"
      and mem = "\<lambda>i. 0" and rest = "[7]" and ys = "[3, 2, 5, 0]"]
  note first = general[THEN conjunct1, THEN mp, THEN mp, THEN mp, THEN mp, OF s n k pos]
  note second = general[THEN conjunct2, THEN conjunct1, THEN mp, THEN mp, THEN mp, THEN mp,
      THEN mp, OF s n k pos perm]
  from first
  have a: "execute_choose_n_roll (\<lambda>i. 0) 4 6 2 compare_roll_high [0, 5, 2, 3, 7] = Inr (10, [7])"
    and b: "execute_choose_n_roll (\<lambda>i. 0) 4 6 2 compare_roll_low [0, 5, 2, 3, 7] = Inr (4, [7])"
    and c: "execute_roll (\<lambda>i. 0)
          \<lparr>dieCount = 4, dieSides = 6,
           rollMod = Some \<lparr>modType = CHOOSE_HIGH, modConstant = 2\<rparr>\<rparr> [0, 5, 2, 3, 7]
       = Inr (10, [7])"
    and d: "execute_roll (\<lambda>i. 0)
          \<lparr>dieCount = 4, dieSides = 6,
           rollMod = Some \<lparr>modType = CHOOSE_LOW, modConstant = 2\<rparr>\<rparr> [0, 5, 2, 3, 7]
       = Inr (4, [7])"
    by (simp_all add: dv c_int_def)
  from second a
  have e: "execute_choose_n_roll (\<lambda>i. 0) 4 6 2 compare_roll_high [3, 2, 5, 0, 7] = Inr (10, [7])"
    by simp
  from s n k vals a b c d e show ?thesis by simp
qed

text \<open>
  Claim C6 fails on the code. With fewer dice than \<open>n\<close> only the first \<open>dieCount\<close>
  slots of the array are written, but the function still returns
  \<open>sum_up(rolls, nChoose)\<close>: the die values plus the slots \<open>dieCount .. n-1\<close>, which
  were never initialised (\<open>execute_choose_n_roll_short\<close>). For \<open>"1d6c2"\<close> and a draw
  of 6 the result is 6 plus whatever the second slot holds (an \<open>int\<close> sum).
\<close>

theorem C6_choose_n_short_adds_unwritten_slots:
  "parse_expr ''1d6c2'' lit 5 A_OP =
       Parsed [] (Some (a_single (m_single (roll_obj
         \<lparr>dieCount = 1, dieSides = 6,
          rollMod = Some \<lparr>modType = CHOOSE_HIGH, modConstant = 2\<rparr>\<rparr>))))
   \<and> execute_expr mem (a_single (m_single (roll_obj
         \<lparr>dieCount = 1, dieSides = 6,
          rollMod = Some \<lparr>modType = CHOOSE_HIGH, modConstant = 2\<rparr>\<rparr>))) [5]
       = Inr (c_int (6 + mem 1), [])
   \<and> execute_expr (\<lambda>i. 77) (a_single (m_single (roll_obj
         \<lparr>dieCount = 1, dieSides = 6,
          rollMod = Some \<lparr>modType = CHOOSE_HIGH, modConstant = 2\<rparr>\<rparr>))) [5]
       = Inr (83, [])"
proof -
  have parse: "parse_expr ''1d6c2'' lit 5 A_OP =
       Parsed [] (Some (a_single (m_single (roll_obj
         \<lparr>dieCount = 1, dieSides = 6,
          rollMod = Some \<lparr>modType = CHOOSE_HIGH, modConstant = 2\<rparr>\<rparr>))))"
    by code_simp
  have dv: "die_value 6 5 = 6"
    by (simp add: die_value_def signed_modulo_int_def c_int_def)
  have "execute_choose_n_roll m (int (length [5 :: int])) 6 (int 2) compare_roll_high ([5] @ [])
        = Inr (c_int (sum_list (map (die_value 6) [5])
                      + sum_list (map m [length [5 :: int]..<2])), [])"
    for m
    by (rule execute_choose_n_roll_short) simp_all
  moreover have "[Suc 0..<2] = [Suc 0]"
    by (simp add: numeral_2_eq_2)
  ultimately have one: "execute_choose_n_roll m 1 6 2 compare_roll_high [5]
                        = Inr (c_int (6 + m 1), [])"
    for m
    by (simp add: dv)
  have run: "execute_expr m (a_single (m_single (roll_obj
         \<lparr>dieCount = 1, dieSides = 6,
          rollMod = Some \<lparr>modType = CHOOSE_HIGH, modConstant = 2\<rparr>\<rparr>))) [5]
       = Inr (c_int (6 + m 1), [])" for m
    by (simp add: tree_defs expr_is_singlet_def execute_roll_def one)
  have "c_int (6 + 77) = 83" by (simp add: c_int_def)
  with run[of mem] run[of "\<lambda>i. 77"] parse show ?thesis by simp
qed

subsection \<open>Sums beyond the range of int\<close>

text \<open>
  Two dice with 2147483647 sides that both show 2147483646 (the random number
  2147483645) add up to 4294967292, which as an \<open>int\<close> is \<open>-4\<close>: that is what each of the
  three modified rolls returns, and \<open>2147483647 + 1\<close> evaluates to \<open>-2147483648\<close>.
\<close>

lemma sums_wrap_around:
  "execute_roll mem
     \<lparr>dieCount = 2, dieSides = 2147483647,
      rollMod = Some \<lparr>modType = CHOOSE_HIGH, modConstant = 2\<rparr>\<rparr>
     [2147483645, 2147483645] = Inr (- 4, [])
   \<and> execute_roll mem
     \<lparr>dieCount = 2, dieSides = 2147483647,
      rollMod = Some \<lparr>modType = REROLL_BELOW, modConstant = 0\<rparr>\<rparr>
     [2147483645, 2147483645] = Inr (- 4, [])
   \<and> execute_roll mem
     \<lparr>dieCount = 2, dieSides = 2147483647,
      rollMod = Some \<lparr>modType = KEEP_AND_REROLL_ABOVE, modConstant = 2147483647\<rparr>\<rparr>
     [2147483645, 2147483645] = Inr (- 4, [])
   \<and> execute_expr mem
         (a_node (m_single (const_obj 2147483647)) PLUS (a_single (m_single (const_obj 1)))) rng
       = Inr (- 2147483648, rng)"
  by (intro conjI; code_simp)

section \<open>Unbalanced parentheses\<close>

text \<open>
  The specification's notion of a span with balanced parentheses, written from its words:
  walking the span from depth \<open>d\<close>, no \<open>')'\<close> brings the depth below zero and the walk
  ends at depth zero.
\<close>

fun spec_depth_walk :: "int \<Rightarrow> string \<Rightarrow> bool" where
  "spec_depth_walk d [] = (d = 0)"
| "spec_depth_walk d (c # cs) =
     (if c = CHR ''('' then spec_depth_walk (d + 1) cs
      else if c = CHR '')'' then 0 \<le> d - 1 \<and> spec_depth_walk (d - 1) cs
      else spec_depth_walk d cs)"

definition spec_balanced :: "string \<Rightarrow> bool" where
  "spec_balanced s = spec_depth_walk 0 s"

lemma spec_depth_walk_skip:
  "\<forall>c \<in> set pre. c \<noteq> CHR ''('' \<and> c \<noteq> CHR '')'' \<Longrightarrow>
     spec_depth_walk d (pre @ s) = spec_depth_walk d s"
  by (induction pre) simp_all

lemma strpbrk_None_iff: "strpbrk s accept = None \<longleftrightarrow> (\<forall>c \<in> set s. c \<notin> set accept)"
  by (induction s) auto

lemma strpbrk_Some_prefix:
  "strpbrk s accept = Some k \<Longrightarrow> \<forall>c \<in> set (take k s). c \<notin> set accept"
proof (induction s arbitrary: k)
  case Nil
  then show ?case by simp
next
  case (Cons a s)
  then show ?case by (cases k) (auto split: if_splits)
qed

definition span :: "string \<Rightarrow> nat \<Rightarrow> int \<Rightarrow> string" where
  \<comment> \<open>the part of the buffer at \<open>scan\<close> that lies within the length, for \<open>off = scan - inp\<close>\<close>
  "span rest off len = take (nat (len - int off)) rest"

lemma span_no_parens:
  assumes "\<forall>c \<in> set (take k rest). c \<notin> set opchars"
    and "CHR ''('' \<in> set opchars" and "CHR '')'' \<in> set opchars"
    and "nat (len - int off) \<le> k \<or> length rest \<le> k"
  shows "spec_depth_walk d (span rest off len) = (d = 0)"
proof -
  have "set (span rest off len) \<subseteq> set (take k rest)"
  proof (cases "nat (len - int off) \<le> k")
    case True
    then show ?thesis
      unfolding span_def by (rule set_take_subset_set_take)
  next
    case False
    with assms(4) have "take k rest = rest" by simp
    then show ?thesis
      unfolding span_def by (simp add: set_take_subset)
  qed
  with assms(1,2,3) have "\<forall>c \<in> set (span rest off len). c \<noteq> CHR ''('' \<and> c \<noteq> CHR '')''"
    by auto
  from spec_depth_walk_skip[OF this, of d "[]"] show ?thesis by simp
qed

lemma span_step:
  assumes "strpbrk rest opchars = Some k" and "int (off + k) < len"
    and "CHR ''('' \<in> set opchars" and "CHR '')'' \<in> set opchars"
  shows "spec_depth_walk d (span rest off len)
         = spec_depth_walk d (rest ! k # span (drop (Suc k) rest) (off + Suc k) len)"
    and "drop (Suc k) (span rest off len) = span (drop (Suc k) rest) (off + Suc k) len"
proof -
  from strpbrk_Some_less[OF assms(1)] have k: "k < length rest" .
  from assms(2) have m: "nat (len - int off) = Suc k + nat (len - int (off + Suc k))"
    by simp
  have "rest = take k rest @ rest ! k # drop (Suc k) rest"
    using k by (simp add: id_take_nth_drop[symmetric])
  then have "span rest off len
             = take (nat (len - int off)) (take k rest @ rest ! k # drop (Suc k) rest)"
    by (simp add: span_def)
  also have "\<dots> = take k rest @ rest ! k # span (drop (Suc k) rest) (off + Suc k) len"
    using k by (simp add: m span_def min_def)
  finally have eq: "span rest off len
             = take k rest @ rest ! k # span (drop (Suc k) rest) (off + Suc k) len" .
  from strpbrk_Some_prefix[OF assms(1)] assms(3,4)
  have "\<forall>c \<in> set (take k rest). c \<noteq> CHR ''('' \<and> c \<noteq> CHR '')''" by auto
  from spec_depth_walk_skip[OF this] eq
  show "spec_depth_walk d (span rest off len)
         = spec_depth_walk d (rest ! k # span (drop (Suc k) rest) (off + Suc k) len)"
    by simp
  from eq k show "drop (Suc k) (span rest off len) = span (drop (Suc k) rest) (off + Suc k) len"
    by (simp add: min_def)
qed

lemma walk_lift:
  assumes "case r of
             Found p \<Rightarrow> off + Suc k \<le> p \<and> int p < len
                        \<and> w' = spec_depth_walk 0 (drop (Suc (p - (off + Suc k))) sp')
           | NotFound \<Rightarrow> w' | Sentinel \<Rightarrow> \<not> w'"
    and "w = w'" and "drop (Suc k) sp = sp'"
  shows "case r of
           Found p \<Rightarrow> off \<le> p \<and> int p < len \<and> w = spec_depth_walk 0 (drop (Suc (p - off)) sp)
         | NotFound \<Rightarrow> w | Sentinel \<Rightarrow> \<not> w"
proof (cases r)
  case (Found p)
  with assms(1) have p: "off + Suc k \<le> p" by simp
  then have "Suc (p - off) = Suc (p - (off + Suc k)) + Suc k" by simp
  then have "drop (Suc (p - off)) sp = drop (Suc (p - (off + Suc k))) sp'"
    by (simp only: assms(3)[symmetric] drop_drop)
  with assms(1,2) Found p show ?thesis by simp
next
  case NotFound
  with assms(1,2) show ?thesis by simp
next
  case Sentinel
  with assms(1,2) show ?thesis by simp
qed

lemma find_loop_walk:
  "CHR ''('' \<in> set opchars \<Longrightarrow> CHR '')'' \<in> set opchars \<Longrightarrow>
     (case find_loop rest off len opchars d of
            Found p \<Rightarrow> off \<le> p \<and> int p < len
                       \<and> spec_depth_walk d (span rest off len)
                           = spec_depth_walk 0 (drop (Suc (p - off)) (span rest off len))
          | NotFound \<Rightarrow> spec_depth_walk d (span rest off len)
          | Sentinel \<Rightarrow> \<not> spec_depth_walk d (span rest off len))"
proof (induction rest off len opchars d rule: find_loop.induct)
  case (1 rest off len opchars d)
  note unfold = find_loop.simps[of rest off len opchars d]
  show ?case
  proof (cases "strpbrk rest opchars")
    case None
    have "spec_depth_walk d (span rest off len) = (d = 0)"
      by (rule span_no_parens[where k = "length rest" and opchars = opchars])
        (use None "1.prems" in \<open>simp_all add: strpbrk_None_iff\<close>)
    moreover from None
    have "find_loop rest off len opchars d = (if d \<noteq> 0 then Sentinel else NotFound)"
      by (simp add: unfold)
    ultimately show ?thesis
      by (cases "d = 0") simp_all
  next
    case (Some k)
    show ?thesis
    proof (cases "int (off + k) < len")
      case False
      then have "nat (len - int off) \<le> k \<or> length rest \<le> k" by linarith
      note span_no_parens[OF strpbrk_Some_prefix[OF Some] "1.prems" this, of d]
      moreover from Some False
      have "find_loop rest off len opchars d = (if d \<noteq> 0 then Sentinel else NotFound)"
        by (simp add: unfold)
      ultimately show ?thesis
        by (cases "d = 0") simp_all
    next
      case True
      note step = span_step[OF Some True "1.prems"]
      note IH = "1.IH"[OF Some True]
      let ?rest' = "drop (Suc k) rest" and ?off' = "off + Suc k"
      consider (opn) "rest ! k = CHR ''(''"
        | (cls) "rest ! k = CHR '')''"
        | (opr) "rest ! k \<noteq> CHR ''(''" "rest ! k \<noteq> CHR '')''"
        by blast
      then show ?thesis
      proof cases
        case opn
        from Some True opn
        have fl: "find_loop rest off len opchars d = find_loop ?rest' ?off' len opchars (d + 1)"
          by (simp add: unfold)
        from step(1)[of d] opn
        have w: "spec_depth_walk d (span rest off len)
                 = spec_depth_walk (d + 1) (span ?rest' ?off' len)"
          by simp
        show ?thesis
          unfolding fl by (rule walk_lift[OF IH(1)[OF opn "1.prems"] w step(2)])
      next
        case cls
        then have ne: "rest ! k \<noteq> CHR ''(''" by simp
        show ?thesis
        proof (cases "d - 1 < 0")
          case True
          from Some \<open>int (off + k) < len\<close> cls True
          have "find_loop rest off len opchars d = Sentinel"
            by (simp add: unfold)
          moreover from step(1)[of d] cls True
          have "\<not> spec_depth_walk d (span rest off len)"
            by simp
          ultimately show ?thesis by simp
        next
          case False
          from Some \<open>int (off + k) < len\<close> cls False
          have fl: "find_loop rest off len opchars d
                    = find_loop ?rest' ?off' len opchars (d - 1)"
            by (simp add: unfold)
          from step(1)[of d] cls False
          have w: "spec_depth_walk d (span rest off len)
                   = spec_depth_walk (d - 1) (span ?rest' ?off' len)"
            by simp
          show ?thesis
            unfolding fl by (rule walk_lift[OF IH(2)[OF ne cls False "1.prems"] w step(2)])
        qed
      next
        case opr
        from step(1)[of d] opr
        have w: "spec_depth_walk d (span rest off len)
                 = spec_depth_walk d (span ?rest' ?off' len)"
          by simp
        show ?thesis
        proof (cases "d = 0")
          case True
          from Some \<open>int (off + k) < len\<close> opr True
          have "find_loop rest off len opchars d = Found (off + k)"
            by (subst unfold) simp
          with \<open>int (off + k) < len\<close> w step(2) True show ?thesis
            by simp
        next
          case False
          from Some \<open>int (off + k) < len\<close> opr False
          have fl: "find_loop rest off len opchars d = find_loop ?rest' ?off' len opchars d"
            by (simp add: unfold)
          show ?thesis
            unfolding fl by (rule walk_lift[OF IH(3)[OF opr False "1.prems"] w step(2)])
        qed
      qed
    qed
  qed
qed

lemma find_first_free_opt_walk:
  assumes "CHR ''('' \<in> set opchars" and "CHR '')'' \<in> set opchars"
  shows "(case find_first_free_opt inp len opchars of
            Found p \<Rightarrow> int p < len
                       \<and> spec_balanced (take (nat len) inp)
                           = spec_balanced (take (nat (len - (int p + 1))) (drop (Suc p) inp))
          | NotFound \<Rightarrow> spec_balanced (take (nat len) inp)
          | Sentinel \<Rightarrow> \<not> spec_balanced (take (nat len) inp))"
proof -
  have "nat len - Suc p = nat (len - (int p + 1))" for p
    by arith
  then have "drop (Suc p) (take (nat len) inp)
             = take (nat (len - (int p + 1))) (drop (Suc p) inp)" for p
    by (simp only: drop_take)
  with find_loop_walk[OF assms, where rest = inp and off = 0 and len = len and d = 0]
  show ?thesis
    by (simp add: find_first_free_opt_def spec_balanced_def span_def split: scan_result.splits)
qed


lemma unbalanced_no_tree:
  "\<not> spec_balanced (take (nat len) inp) \<Longrightarrow> parse_expr inp lit len type \<noteq> Parsed errs (Some t)"
proof (induction "length inp" arbitrary: inp lit len errs t rule: less_induct)
  case less
  let ?opchars = "if type = M_OP then ''()*/'' else ''()+-''"
  have parens: "CHR ''('' \<in> set ?opchars" "CHR '')'' \<in> set ?opchars"
    by simp_all
  note walk = find_first_free_opt_walk[OF parens, where inp = inp and len = len]
  show ?case
  proof (cases "find_first_free_opt inp len ?opchars")
    case (Found p)
    with walk less.prems(1)
    have right: "\<not> spec_balanced (take (nat (len - (int p + 1))) (drop (Suc p) inp))"
      by simp
    from find_first_free_opt_char[OF Found] have "p < length inp" ..
    then have "length (drop (Suc p) inp) < length inp"
      by simp
    note no = less.hyps[OF this right]
    show ?thesis
    proof
      assume "parse_expr inp lit len type = Parsed errs (Some t)"
      from parse_expr_Found[OF Found this] no show False
        by blast
    qed
  next
    case NotFound
    with walk less.prems(1) show ?thesis by simp
  next
    case Sentinel
    then show ?thesis by (rule parse_expr_Sentinel_no_tree)
  qed
qed

subsection \<open>The two inputs of the specification\<close>

text \<open>
  What \<open>parse_expr\<close> does on \<open>"(1+2"\<close> and on \<open>"1+2)"\<close> depends on the distance
  from the buffer to the literal, through its value as an \<open>int\<close>. When that value is
  at least 6 for \<open>"(1+2"\<close>, the run faults after two messages; when it is at least 2
  at the \<open>2\<close> of \<open>"1+2)"\<close>, the run returns NULL after five.
\<close>

lemma unclosed_scan:
  "0 < len \<Longrightarrow> find_first_free_opt ''(1+2'' len ''()*/'' = Sentinel"
  by (simp add: find_first_free_opt_def find_loop.simps[of "''(1+2''"]
      find_loop.simps[of "''1+2''"])

lemma unclosed_paren_faults:
  assumes "6 \<le> c_int lit"
  shows "parse_expr ''(1+2'' lit 4 A_OP = Fault [MismatchedParentheses, MismatchedParentheses]"
proof -
  have top: "find_first_free_opt ''(1+2'' 4 ''()+-'' = Sentinel"
    by code_simp
  from assms have pos: "0 < c_int lit" by simp
  from assms have ob: "parse_obj ''(1+2'' lit (c_int lit) = Fault []"
    by (subst parse_obj.simps) (simp add: char_at_def)
  from pos have left: "parse_expr ''(1+2'' lit (c_int lit) M_OP = Fault [MismatchedParentheses]"
    by (subst parse_expr.simps) (simp add: unclosed_scan ob)
  show ?thesis
    by (subst parse_expr.simps) (simp add: top left)
qed

lemma extra_paren_scan:
  "2 \<le> len \<Longrightarrow> find_first_free_opt ''2)'' len ''()*/'' = Sentinel"
  by (simp add: find_first_free_opt_def find_loop.simps[of "''2)''"])

lemma extra_paren_messages:
  assumes "2 \<le> c_int (lit - 2)"
  shows "parse_expr ''1+2)'' lit 4 A_OP
         = Parsed [MismatchedParentheses, MismatchedParentheses, GarbledRoll, MissingObject,
                   MissingObject] None"
proof -
  let ?g = "c_int (lit - 2)"
  have top: "find_first_free_opt ''1+2)'' 4 ''()+-'' = Found 1"
    by code_simp
  have one: "parse_expr ''1+2)'' lit 1 M_OP = Parsed [] (Some (m_single (const_obj 1)))"
    by code_simp
  have scan: "find_first_free_opt ''2)'' 2 ''()+-'' = Sentinel"
    by code_simp
  from assms have ob: "parse_obj ''2)'' (lit - 2) ?g = Parsed [GarbledRoll] None"
    by (subst parse_obj.simps) (simp add: char_at_def parse_roll_def)
  have "c_int (?g - (lit - 1)) = c_int (lit - 2 - (lit - 1))"
    by (rule c_int_diff_left)
  then have inner_len: "c_int (?g - (lit - 1)) = - 1"
    by (simp add: c_int_def)
  have "c_int (1 - ?g) = c_int (1 - (lit - 2))"
    by (rule c_int_diff_right)
  moreover from assms c_int_range[of "lit - 2"] have "c_int (1 - ?g) = 1 - ?g"
    by (intro c_int_id) simp_all
  ultimately have outer_len: "c_int (3 - lit) \<le> 0"
    using assms by (simp add: algebra_simps)
  have missing: "parse_expr [] (- 1) k ty = Parsed [MissingObject] None" if "k \<le> 0" for k ty
    using that by (subst parse_expr.simps) simp
  from assms have left: "parse_expr ''2)'' (lit - 2) ?g M_OP
                         = Parsed [MismatchedParentheses, GarbledRoll, MissingObject] None"
    by (subst parse_expr.simps)
      (simp add: extra_paren_scan ob inner_len missing make_node_def)
  have right: "parse_expr ''2)'' (lit - 2) 2 A_OP
               = Parsed [MismatchedParentheses, MismatchedParentheses, GarbledRoll, MissingObject,
                         MissingObject] None"
    by (subst parse_expr.simps)
      (simp add: scan left missing[OF outer_len] make_node_def)
  show ?thesis
    by (subst parse_expr.simps) (simp add: top one right make_node_def)
qed

text \<open>
  Claim C9 fails on the code. The scanner does print "Mismatched parentheses." when it
  meets the imbalance, and a span with unbalanced parentheses never parses to a tree
  (\<open>unbalanced_no_tree\<close>). But the parse does not fail with that message and NULL in the
  way the claim says, because the scanner returns the literal \<open>"?"\<close> and \<open>parse_expr\<close>
  goes on with it as with an operator:

  \<^item> \<open>"(1+2"\<close>: the additive scan fails; the left operand is parsed at the
    multiplicative level with the distance to the literal as its length; that scan fails
    too, and \<open>parse_obj\<close> then reads \<open>inp[len-1]\<close> with the same length. When the
    length is positive and larger than the buffer the read is outside the buffer: the
    message has been printed twice and the run does not return. When the distance, as an
    \<open>int\<close>, is negative, the run returns NULL after three messages. The two cases are
    shown for the distances 4096 and -4096, and for -46912496107516, the distance from
    a buffer at address 0x7fffffffe000 to a literal at 0x555555556004, which is
    1431666692 as an \<open>int\<close>.

  \<^item> \<open>"1+2)"\<close>: the parse returns NULL, after five messages.

  \<^item> \<open>"c1d6+2)"\<close>: the left operand \<open>c1d6\<close> is parsed first, and \<open>parse_roll\<close>
    faults on it (the modifier letter is before the \<open>d\<close>); the right part, which holds
    the unbalanced parenthesis, is never scanned and no message is printed.
\<close>

theorem C9_mismatched_parentheses_not_terminal:
  "\<not> spec_balanced ''(1+2''
   \<and> parse_expr ''(1+2'' 4096 4 A_OP = Fault [MismatchedParentheses, MismatchedParentheses]
   \<and> parse_expr ''(1+2'' (- 46912496107516) 4 A_OP
       = Fault [MismatchedParentheses, MismatchedParentheses]
   \<and> parse_expr ''(1+2'' (- 4096) 4 A_OP
       = Parsed [MismatchedParentheses, MissingObject, GarbledRoll] None
   \<and> \<not> spec_balanced ''1+2)''
   \<and> parse_expr ''1+2)'' 4096 4 A_OP
       = Parsed [MismatchedParentheses, MismatchedParentheses, GarbledRoll, MissingObject,
                 MissingObject] None
   \<and> parse_expr ''1+2)'' (- 46912496107516) 4 A_OP
       = Parsed [MismatchedParentheses, MismatchedParentheses, GarbledRoll, MissingObject,
                 MissingObject] None
   \<and> \<not> spec_balanced ''c1d6+2)''
   \<and> parse_expr ''c1d6+2)'' lit 7 A_OP = Fault []"
proof (intro conjI)
  show "\<not> spec_balanced ''(1+2''" by (simp add: spec_balanced_def)
  show "\<not> spec_balanced ''1+2)''" by (simp add: spec_balanced_def)
  show "\<not> spec_balanced ''c1d6+2)''" by (simp add: spec_balanced_def)
qed code_simp+

section \<open>What the parser reads of its buffer\<close>

definition within :: "nat \<Rightarrow> nat option \<Rightarrow> nat option" where
  \<comment> \<open>the test \<open>loc && (loc - inp) < len\<close> applied to a search result\<close>
  "within m loc = (case loc of None \<Rightarrow> None | Some k \<Rightarrow> if k < m then Some k else None)"

lemma strpbrk_take: "strpbrk (take m s) accept = within m (strpbrk s accept)"
proof (induction s arbitrary: m)
  case Nil
  show ?case by (simp add: within_def)
next
  case (Cons c s)
  show ?case
  proof (cases m)
    case 0
    then show ?thesis by (simp add: within_def split: option.splits)
  next
    case (Suc j)
    with Cons.IH[of j] show ?thesis
      by (auto simp: within_def split: option.splits)
  qed
qed

lemma strchr_take: "strchr (take m s) ch = within m (strchr s ch)"
proof (induction s arbitrary: m)
  case Nil
  show ?case by (simp add: within_def)
next
  case (Cons c s)
  show ?case
  proof (cases m)
    case 0
    then show ?thesis by (simp add: within_def split: option.splits)
  next
    case (Suc j)
    with Cons.IH[of j] show ?thesis
      by (auto simp: within_def split: option.splits)
  qed
qed

lemma char_at_take: "i < m \<Longrightarrow> char_at (take m s) i = char_at s i"
  by (simp add: char_at_def)

lemma strspn_le: "strspn s accept \<le> length s"
  by (induction s) simp_all

lemma strspn_eq_iff:
  "strspn s accept = n \<longleftrightarrow>
     n \<le> length s \<and> (\<forall>c \<in> set (take n s). c \<in> set accept)
     \<and> (n < length s \<longrightarrow> s ! n \<notin> set accept)"
proof (induction s arbitrary: n)
  case Nil
  show ?case by auto
next
  case (Cons c s)
  show ?case
  proof (cases n)
    case 0
    then show ?thesis by auto
  next
    case (Suc j)
    with Cons.IH[of j] show ?thesis by auto
  qed
qed

lemma isdigit_char_at:
  "isdigit (char_at b n) = (n < length b \<and> b ! n \<in> set ''0123456789'')"
  by (simp add: char_at_def isdigit_def)

lemma strspn_same_accept:
  assumes "take n b1 = take n b2"
    and "(n < length b1 \<and> b1 ! n \<in> set accept) = (n < length b2 \<and> b2 ! n \<in> set accept)"
  shows "(strspn b1 accept = n) = (strspn b2 accept = n)"
proof -
  from assms(1) have "length (take n b1) = length (take n b2)" by simp
  then have len: "(n \<le> length b1) = (n \<le> length b2)" by (simp add: min_def split: if_splits)
  from assms(2) have nxt: "(n < length b1 \<longrightarrow> b1 ! n \<notin> set accept)
                            = (n < length b2 \<longrightarrow> b2 ! n \<notin> set accept)"
    by blast
  show ?thesis
    unfolding strspn_eq_iff by (simp only: assms(1) len nxt)
qed

lemma strspn_same:
  assumes "take n b1 = take n b2" and "isdigit (char_at b1 n) = isdigit (char_at b2 n)"
  shows "(strspn b1 ''0123456789'' = n) = (strspn b2 ''0123456789'' = n)"
  by (rule strspn_same_accept[OF assms(1)]) (rule assms(2)[unfolded isdigit_char_at])

subsection \<open>The scanner\<close>

lemma find_loop_take:
  "find_loop rest off len opchars d
   = find_loop (take (nat (len - int off)) rest) off len opchars d"
proof (induction rest off len opchars d rule: find_loop.induct)
  case (1 rest off len opchars d)
  let ?m = "nat (len - int off)"
  note left = find_loop.simps[of rest off len opchars d]
  note right = find_loop.simps[of "take ?m rest" off len opchars d]
  show ?case
  proof (cases "strpbrk rest opchars")
    case None
    then show ?thesis
      by (simp add: left right strpbrk_take within_def)
  next
    case (Some k)
    show ?thesis
    proof (cases "int (off + k) < len")
      case False
      then have "\<not> k < ?m" by linarith
      with Some False show ?thesis
        by (simp add: left right strpbrk_take within_def)
    next
      case True
      then have k: "k < ?m" by linarith
      from strpbrk_Some_less[OF Some] have kl: "k < length rest" .
      have m': "?m - Suc k = nat (len - int (off + Suc k))" by linarith
      have rest': "drop (Suc k) (take ?m rest)
                   = take (nat (len - int (off + Suc k))) (drop (Suc k) rest)"
        by (simp only: drop_take m')
      have again: "take (nat (len - int (off + Suc k))) (drop (Suc k) (take ?m rest))
                   = drop (Suc k) (take ?m rest)"
        by (simp only: rest' take_take min.idem)
      note IH = "1.IH"[OF Some True]
      have tk: "strpbrk (take ?m rest) opchars = Some k"
        using Some k by (simp add: strpbrk_take within_def)
      have ch: "take ?m rest ! k = rest ! k"
        using k by simp
      consider (opn) "rest ! k = CHR ''(''"
        | (cls) "rest ! k = CHR '')''" "d - 1 < 0"
        | (cls') "rest ! k = CHR '')''" "\<not> d - 1 < 0"
        | (found) "rest ! k \<noteq> CHR ''(''" "rest ! k \<noteq> CHR '')''" "d = 0"
        | (opr) "rest ! k \<noteq> CHR ''(''" "rest ! k \<noteq> CHR '')''" "d \<noteq> 0"
        by blast
      then show ?thesis
      proof cases
        case opn
        from IH(1)[OF opn] Some True opn tk ch show ?thesis
          by (simp add: left right rest')
      next
        case cls
        with Some True tk ch show ?thesis
          by (simp add: left right)
      next
        case cls'
        then have ne: "rest ! k \<noteq> CHR ''(''" by simp
        from IH(2)[OF ne cls'] Some True cls' tk ch show ?thesis
          by (simp add: left right rest')
      next
        case found
        with Some True tk ch show ?thesis
          by (subst left, subst right) simp
      next
        case opr
        from IH(3)[OF opr] Some True opr tk ch show ?thesis
          by (simp add: left right rest')
      qed
    qed
  qed
qed

lemma find_first_free_opt_take:
  "find_first_free_opt inp len opchars = find_first_free_opt (take (nat len) inp) len opchars"
  using find_loop_take[of inp 0 len opchars 0] by (simp add: find_first_free_opt_def)

lemma find_first_free_opt_same:
  "take (nat len) b1 = take (nat len) b2
     \<Longrightarrow> find_first_free_opt b1 len opchars = find_first_free_opt b2 len opchars"
  by (metis find_first_free_opt_take)

subsection \<open>parse\_modifier and parse\_roll\<close>

lemma parse_modifier_take:
  "parse_modifier inp len = parse_modifier (take (nat len) inp) len"
proof (cases "len \<le> 0")
  case True
  then show ?thesis by (simp add: parse_modifier_def)
next
  case False
  then have c: "char_at (take (nat len) inp) 0 = char_at inp 0"
    by (simp add: char_at_take)
  have "nat len - 1 = nat (len - 1)" by arith
  then have "drop 1 (take (nat len) inp) = take (nat (len - 1)) (drop 1 inp)"
    by (simp only: drop_take)
  then have s: "strncpy (drop 1 (take (nat len) inp)) (len - 1) = strncpy (drop 1 inp) (len - 1)"
    by (simp only: strncpy_def take_take min.idem)
  show ?thesis
    unfolding parse_modifier_def c s ..
qed

lemma parse_modifier_same:
  "take (nat len) b1 = take (nat len) b2 \<Longrightarrow> parse_modifier b1 len = parse_modifier b2 len"
  by (metis parse_modifier_take)

lemma strncpy_drop_take:
  assumes "nat b + j \<le> n"
  shows "strncpy (drop j (take n inp)) b = strncpy (drop j inp) b"
proof -
  from assms have "min (nat b) (n - j) = nat b" by simp
  then show ?thesis
    by (simp only: strncpy_def drop_take take_take)
qed

lemma parse_roll_take:
  "parse_roll inp len = parse_roll (take (nat len) inp) len"
proof (cases "len \<le> 0")
  case True
  then show ?thesis by (simp add: parse_roll_def)
next
  case False
  let ?n = "nat len" and ?t = "take (nat len) inp"
  show ?thesis
  proof (cases "within ?n (strchr inp (CHR ''d''))")
    case None
    then have "strchr ?t (CHR ''d'') = None" by (simp only: strchr_take)
    moreover from None have "strchr inp (CHR ''d'') = None
        \<or> (\<exists>d. strchr inp (CHR ''d'') = Some d \<and> int d \<ge> len)"
      by (auto simp: within_def split: option.splits if_splits)
    ultimately show ?thesis
      using False by (auto simp: parse_roll_def)
  next
    case (Some d)
    then have d: "strchr inp (CHR ''d'') = Some d" and dn: "d < ?n"
      by (auto simp: within_def split: option.splits if_splits)
    from Some have d': "strchr ?t (CHR ''d'') = Some d" by (simp only: strchr_take)
    from dn have dl: "\<not> int d \<ge> len" by linarith
    have constA: "strncpy ?t (int d) = strncpy inp (int d)"
      using strncpy_drop_take[of "int d" 0 ?n inp] dn by simp
    show ?thesis
    proof (cases "within ?n (strpbrk inp ''cbvw'')")
      case None
      then have m': "strpbrk ?t ''cbvw'' = None" by (simp only: strpbrk_take)
      from None have m: "strpbrk inp ''cbvw'' = None
          \<or> (\<exists>m. strpbrk inp ''cbvw'' = Some m \<and> \<not> int m < len)"
        by (auto simp: within_def split: option.splits if_splits)
      have constB: "strncpy (drop (d + 1) ?t) (len - (int d + 1 + 0))
                    = strncpy (drop (d + 1) inp) (len - (int d + 1 + 0))"
        using dn by (intro strncpy_drop_take) linarith
      from m show ?thesis
      proof
        assume "strpbrk inp ''cbvw'' = None"
        with d d' dl m' constA constB show ?thesis
          by (simp add: parse_roll_def)
      next
        assume "\<exists>m. strpbrk inp ''cbvw'' = Some m \<and> \<not> int m < len"
        then obtain m where "strpbrk inp ''cbvw'' = Some m" and "\<not> int m < len"
          by blast
        with d d' dl m' constA constB show ?thesis
          by (simp add: parse_roll_def)
      qed
    next
      case (Some m)
      then have m: "strpbrk inp ''cbvw'' = Some m" and mn: "m < ?n"
        by (auto simp: within_def split: option.splits if_splits)
      from Some have m': "strpbrk ?t ''cbvw'' = Some m" by (simp only: strpbrk_take)
      from mn have ml: "int m < len" by linarith
      have "nat (len - int m) = ?n - m" by arith
      then have "take (nat (len - int m)) (drop m ?t) = take (nat (len - int m)) (drop m inp)"
        by (simp only: drop_take take_take min.idem)
      then have pm: "parse_modifier (drop m ?t) (len - int m)
                     = parse_modifier (drop m inp) (len - int m)"
        by (rule parse_modifier_same)
      have constB: "strncpy (drop (d + 1) ?t) (len - (int d + 1 + (len - int m)))
                    = strncpy (drop (d + 1) inp) (len - (int d + 1 + (len - int m)))"
        using dn mn by (intro strncpy_drop_take) linarith
      from d d' dl m m' ml pm constA constB show ?thesis
        by (simp add: parse_roll_def Let_def split: parsed.splits)
    qed
  qed
qed

lemma parse_roll_same:
  "take (nat len) b1 = take (nat len) b2 \<Longrightarrow> parse_roll b1 len = parse_roll b2 len"
  by (metis parse_roll_take)

subsection \<open>parse\_obj and parse\_expr\<close>

definition same_span :: "int \<Rightarrow> string \<Rightarrow> string \<Rightarrow> bool" where
  \<comment> \<open>two buffers with the same first \<open>len\<close> bytes, followed in both by a digit or in
      both by something else\<close>
  "same_span len b1 b2 \<longleftrightarrow>
     take (nat len) b1 = take (nat len) b2
     \<and> isdigit (char_at b1 (nat len)) = isdigit (char_at b2 (nat len))"

lemma char_at_drop: "char_at (drop j s) i = char_at s (j + i)"
  by (auto simp: char_at_def)

lemma same_span_char:
  assumes "same_span len b1 b2" and "i < nat len"
  shows "char_at b1 i = char_at b2 i"
proof -
  from assms(2) have "char_at b1 i = char_at (take (nat len) b1) i"
    by (simp only: char_at_take)
  also from assms(1) have "\<dots> = char_at (take (nat len) b2) i"
    by (simp only: same_span_def)
  also from assms(2) have "\<dots> = char_at b2 i"
    by (simp only: char_at_take)
  finally show ?thesis .
qed

lemma same_span_prefix:
  assumes "same_span len b1 b2" and "int p < len"
  shows "same_span (int p) b1 b2"
proof -
  from assms(2) have p: "p < nat len" by linarith
  from assms(1) have "take p (take (nat len) b1) = take p (take (nat len) b2)"
    by (simp only: same_span_def)
  with p have "take p b1 = take p b2" by (simp add: min_def)
  with same_span_char[OF assms(1) p] show ?thesis
    by (simp add: same_span_def)
qed

lemma same_span_right:
  assumes "same_span len b1 b2" and "int p < len"
  shows "same_span (len - (int p + 1)) (drop (Suc p) b1) (drop (Suc p) b2)"
proof -
  let ?k = "nat (len - (int p + 1))"
  from assms(2) have n: "nat len - Suc p = ?k" and at: "Suc p + ?k = nat len"
    by linarith+
  have t: "take ?k (drop (Suc p) b) = drop (Suc p) (take (nat len) b)" for b
    by (simp only: drop_take n)
  from assms(1) have "take (nat len) b1 = take (nat len) b2"
    by (simp only: same_span_def)
  then have "take ?k (drop (Suc p) b1) = take ?k (drop (Suc p) b2)"
    by (simp only: t)
  moreover have "char_at (drop (Suc p) b) ?k = char_at b (nat len)" for b
    by (simp only: char_at_drop at)
  ultimately show ?thesis
    using assms(1) by (simp add: same_span_def)
qed

lemma same_span_inner:
  assumes "same_span len b1 b2" and "2 \<le> len"
  shows "same_span (len - 2) (drop 1 b1) (drop 1 b2)"
proof -
  let ?k = "nat (len - 2)"
  from assms(2) have n: "min ?k (nat len - 1) = ?k" and at: "1 + ?k = nat (len - 1)"
    and lt: "nat (len - 1) < nat len"
    by linarith+
  have t: "take ?k (drop 1 b) = take ?k (drop 1 (take (nat len) b))" for b
    by (simp only: drop_take take_take n)
  from assms(1) have "take (nat len) b1 = take (nat len) b2"
    by (simp only: same_span_def)
  with t[of b1] t[of b2] have "take ?k (drop 1 b1) = take ?k (drop 1 b2)"
    by simp
  moreover have "char_at (drop 1 b) ?k = char_at b (nat (len - 1))" for b
    by (simp only: char_at_drop at)
  ultimately show ?thesis
    using same_span_char[OF assms(1) lt] by (simp add: same_span_def)
qed

lemma same_span_short:
  assumes "same_span len b1 b2"
  shows "(int (length b1) < len - 1) = (int (length b2) < len - 1)"
proof -
  from assms have "length (take (nat len) b1) = length (take (nat len) b2)"
    by (simp only: same_span_def)
  then have "min (length b1) (nat len) = min (length b2) (nat len)" by simp
  then show ?thesis by linarith
qed

text \<open>
  How the messages and the result of a parse with two parts, and of one that wraps a
  single part, follow from those of the parts: when the first part has faulted the second is
  not run.
\<close>

lemma seq_same:
  fixes X1 X2 :: "'a parsed" and Y1 Y2 :: "'b parsed"
    and F :: "'a option \<Rightarrow> 'b option \<Rightarrow> 'c option"
  assumes "m \<notin> set (messages
             (case X1 of Fault e1 \<Rightarrow> Fault e1
              | Parsed e1 x \<Rightarrow> (case Y1 of Fault e2 \<Rightarrow> Fault (e1 @ e2)
                                | Parsed e2 y \<Rightarrow> Parsed (e1 @ e2) (F x y))))"
    and "m \<notin> set (messages X1) \<Longrightarrow> X2 = X1"
    and "\<And>e1 x. X1 = Parsed e1 x \<Longrightarrow> m \<notin> set (messages Y1) \<Longrightarrow> Y2 = Y1"
  shows "(case X2 of Fault e1 \<Rightarrow> Fault e1
          | Parsed e1 x \<Rightarrow> (case Y2 of Fault e2 \<Rightarrow> Fault (e1 @ e2)
                            | Parsed e2 y \<Rightarrow> Parsed (e1 @ e2) (F x y)))
         = (case X1 of Fault e1 \<Rightarrow> Fault e1
            | Parsed e1 x \<Rightarrow> (case Y1 of Fault e2 \<Rightarrow> Fault (e1 @ e2)
                              | Parsed e2 y \<Rightarrow> Parsed (e1 @ e2) (F x y)))"
proof (cases X1)
  case (Fault e1)
  with assms(1,2) show ?thesis by simp
next
  case (Parsed e1 x)
  with assms(1) have x: "m \<notin> set (messages X1)" and y: "m \<notin> set (messages Y1)"
    by (cases Y1; simp)+
  from assms(2)[OF x] assms(3)[OF Parsed y] show ?thesis
    by (simp split: parsed.splits)
qed

lemma single_same:
  fixes X1 X2 :: "'a parsed" and G :: "'a option \<Rightarrow> 'b option"
  assumes "m \<notin> set (messages
             (case X1 of Fault e \<Rightarrow> Fault e | Parsed e x \<Rightarrow> Parsed e (G x)))"
    and "m \<notin> set (messages X1) \<Longrightarrow> X2 = X1"
  shows "(case X2 of Fault e \<Rightarrow> Fault e | Parsed e x \<Rightarrow> Parsed e (G x))
         = (case X1 of Fault e \<Rightarrow> Fault e | Parsed e x \<Rightarrow> Parsed e (G x))"
proof -
  from assms(1) have "m \<notin> set (messages X1)" by (cases X1) simp_all
  from assms(2)[OF this] show ?thesis by simp
qed

lemma parse_expr_unfold_Found_M:
  assumes "\<not> len \<le> 0" and "find_first_free_opt inp len ''()*/'' = Found p"
  shows "parse_expr inp lit len M_OP =
           (case parse_obj inp lit (int p) of
              Fault e1 \<Rightarrow> Fault e1
            | Parsed e1 x \<Rightarrow>
                (case parse_expr (drop (Suc p) inp) (lit - (int p + 1)) (len - (int p + 1)) M_OP of
                   Fault e2 \<Rightarrow> Fault (e1 @ e2)
                 | Parsed e2 y \<Rightarrow>
                     Parsed (e1 @ e2) (make_node None x (parse_operator (char_at inp p)) y)))"
  using assms by (subst parse_expr.simps) simp

lemma parse_expr_unfold_Found_A:
  assumes "\<not> len \<le> 0" and "find_first_free_opt inp len ''()+-'' = Found p"
  shows "parse_expr inp lit len A_OP =
           (case parse_expr inp lit (int p) M_OP of
              Fault e1 \<Rightarrow> Fault e1
            | Parsed e1 x \<Rightarrow>
                (case parse_expr (drop (Suc p) inp) (lit - (int p + 1)) (len - (int p + 1)) A_OP of
                   Fault e2 \<Rightarrow> Fault (e1 @ e2)
                 | Parsed e2 y \<Rightarrow>
                     Parsed (e1 @ e2) (make_node x None (parse_operator (char_at inp p)) y)))"
  using assms by (subst parse_expr.simps) simp

lemma parse_expr_unfold_NotFound_M:
  assumes "\<not> len \<le> 0" and "find_first_free_opt inp len ''()*/'' = NotFound"
  shows "parse_expr inp lit len M_OP =
           (case parse_obj inp lit len of
              Fault e \<Rightarrow> Fault e
            | Parsed e x \<Rightarrow> Parsed e (make_singlet None x))"
  using assms by (subst parse_expr.simps) simp

lemma parse_expr_unfold_NotFound_A:
  assumes "\<not> len \<le> 0" and "find_first_free_opt inp len ''()+-'' = NotFound"
  shows "parse_expr inp lit len A_OP =
           (case parse_expr inp lit len M_OP of
              Fault e \<Rightarrow> Fault e
            | Parsed e x \<Rightarrow> Parsed e (make_singlet x None))"
  using assms by (subst parse_expr.simps) simp

lemma parse_expr_Sentinel_message:
  assumes "\<not> len \<le> 0"
    and "find_first_free_opt inp len (if type = M_OP then ''()*/'' else ''()+-'') = Sentinel"
  shows "MismatchedParentheses \<in> set (messages (parse_expr inp lit len type))"
  using assms by (subst parse_expr.simps) (simp split: parsed.splits)

lemma parse_obj_unfold_paren:
  assumes "\<not> len \<le> 0" and "char_at inp 0 = CHR ''(''"
    and "\<not> int (length inp) < len - 1" and "char_at inp (nat (len - 1)) = CHR '')''"
  shows "parse_obj inp lit len =
           (case parse_expr (drop 1 inp) (lit - 1) (len - 2) A_OP of
              Fault e \<Rightarrow> Fault e
            | Parsed e x \<Rightarrow>
                Parsed e (case x of None \<Rightarrow> None | Some s \<Rightarrow> Some (ObjNode None 0 (Some s))))"
  using assms by (subst parse_obj.simps) (simp split: parsed.splits option.splits)

lemma parse_obj_unfold_other:
  assumes "\<not> len \<le> 0"
    and "char_at inp 0 \<noteq> CHR ''('' \<or> int (length inp) < len - 1
         \<or> char_at inp (nat (len - 1)) \<noteq> CHR '')''"
  shows "parse_obj inp lit len =
           (if char_at inp 0 = CHR ''('' then
              (if int (length inp) < len - 1 then Fault []
               else Parsed [MismatchedParenthesesObj] None)
            else if int (strspn inp ''0123456789'') = len then
              Parsed [] (Some (ObjNode None (atoi (strncpy inp len)) None))
            else
              (case parse_roll inp len of
                 Fault e \<Rightarrow> Fault e
               | Parsed e r \<Rightarrow>
                   (case r of
                      None \<Rightarrow> Parsed e None
                    | Some rl \<Rightarrow> Parsed e (Some (ObjNode (Some rl) 0 None)))))"
  using assms by (subst parse_obj.simps) auto

lemma parse_same_aux:
  "(\<forall>b1 b2 l1 l2 len type.
      3 * length b1 + (if type = A_OP then 2 else 1) = m \<longrightarrow> same_span len b1 b2 \<longrightarrow>
      MismatchedParentheses \<notin> set (messages (parse_expr b1 l1 len type)) \<longrightarrow>
      parse_expr b2 l2 len type = parse_expr b1 l1 len type)
   \<and> (\<forall>b1 b2 l1 l2 len.
      3 * length b1 = m \<longrightarrow> same_span len b1 b2 \<longrightarrow>
      MismatchedParentheses \<notin> set (messages (parse_obj b1 l1 len)) \<longrightarrow>
      parse_obj b2 l2 len = parse_obj b1 l1 len)"
proof (induction m rule: less_induct)
  case (less m)
  have IH_expr: "parse_expr c2 k2 l ty = parse_expr c1 k1 l ty"
    if "3 * length c1 + (if ty = A_OP then 2 else 1) < m" and "same_span l c1 c2"
      and "MismatchedParentheses \<notin> set (messages (parse_expr c1 k1 l ty))"
    for c1 c2 k1 k2 l ty
    using less.IH[OF that(1)] that(2,3) by blast
  have IH_obj: "parse_obj c2 k2 l = parse_obj c1 k1 l"
    if "3 * length c1 < m" and "same_span l c1 c2"
      and "MismatchedParentheses \<notin> set (messages (parse_obj c1 k1 l))"
    for c1 c2 k1 k2 l
    using less.IH[OF that(1)] that(2,3) by blast
  show ?case
  proof (intro conjI allI impI)
    fix b1 b2 l1 l2 len type
    assume m: "3 * length b1 + (if type = A_OP then 2 else 1) = m"
      and same: "same_span len b1 b2"
      and quiet: "MismatchedParentheses \<notin> set (messages (parse_expr b1 l1 len type))"
    let ?opchars = "if type = M_OP then ''()*/'' else ''()+-''"
    show "parse_expr b2 l2 len type = parse_expr b1 l1 len type"
    proof (cases "len \<le> 0")
      case True
      then show ?thesis
        by (subst parse_expr.simps[of b1], subst parse_expr.simps[of b2]) simp
    next
      case False
      from same have scan: "find_first_free_opt b2 len ?opchars = find_first_free_opt b1 len ?opchars"
        by (intro find_first_free_opt_same) (simp add: same_span_def)
      show ?thesis
      proof (cases "find_first_free_opt b1 len ?opchars")
        case Sentinel
        from parse_expr_Sentinel_message[OF False Sentinel, of l1] quiet show ?thesis
          by simp
      next
        case NotFound
        show ?thesis
        proof (cases type)
          case M_OP
          with NotFound scan have nf: "find_first_free_opt b1 len ''()*/'' = NotFound"
            "find_first_free_opt b2 len ''()*/'' = NotFound"
            by simp_all
          note u1 = parse_expr_unfold_NotFound_M[OF False nf(1), of l1]
            and u2 = parse_expr_unfold_NotFound_M[OF False nf(2), of l2]
          have "parse_obj b2 l2 len = parse_obj b1 l1 len"
            if "MismatchedParentheses \<notin> set (messages (parse_obj b1 l1 len))"
            using m M_OP same that by (intro IH_obj) simp_all
          with quiet[unfolded M_OP u1] show ?thesis
            unfolding M_OP u1 u2 by (rule single_same)
        next
          case A_OP
          with NotFound scan have nf: "find_first_free_opt b1 len ''()+-'' = NotFound"
            "find_first_free_opt b2 len ''()+-'' = NotFound"
            by simp_all
          note u1 = parse_expr_unfold_NotFound_A[OF False nf(1), of l1]
            and u2 = parse_expr_unfold_NotFound_A[OF False nf(2), of l2]
          have "parse_expr b2 l2 len M_OP = parse_expr b1 l1 len M_OP"
            if "MismatchedParentheses \<notin> set (messages (parse_expr b1 l1 len M_OP))"
            using m A_OP same that by (intro IH_expr) simp_all
          with quiet[unfolded A_OP u1] show ?thesis
            unfolding A_OP u1 u2 by (rule single_same)
        qed
      next
        case (Found p)
        from find_first_free_opt_less[OF Found] have p: "int p < len" .
        from find_first_free_opt_char[OF Found] have pl: "p < length b1" ..
        from p have pn: "p < nat len" by linarith
        note left = same_span_prefix[OF same p]
        note right = same_span_right[OF same p]
        have op: "char_at b2 p = char_at b1 p"
          by (rule same_span_char[OF same pn, symmetric])
        have r: "parse_expr (drop (Suc p) b2) (l2 - (int p + 1)) (len - (int p + 1)) type
                 = parse_expr (drop (Suc p) b1) (l1 - (int p + 1)) (len - (int p + 1)) type"
          if "MismatchedParentheses \<notin> set (messages
                (parse_expr (drop (Suc p) b1) (l1 - (int p + 1)) (len - (int p + 1)) type))"
        proof -
          from pl m
          have "3 * length (drop (Suc p) b1) + (if type = A_OP then 2 else 1) < m"
            by auto
          from IH_expr[OF this right that] show ?thesis .
        qed
        show ?thesis
        proof (cases type)
          case M_OP
          with Found scan have f: "find_first_free_opt b1 len ''()*/'' = Found p"
            "find_first_free_opt b2 len ''()*/'' = Found p"
            by simp_all
          note u1 = parse_expr_unfold_Found_M[OF False f(1), of l1]
            and u2 = parse_expr_unfold_Found_M[OF False f(2), of l2]
          have l: "parse_obj b2 l2 (int p) = parse_obj b1 l1 (int p)"
            if "MismatchedParentheses \<notin> set (messages (parse_obj b1 l1 (int p)))"
            using m M_OP left that by (intro IH_obj) simp_all
          from quiet[unfolded M_OP u1] l r[unfolded M_OP] show ?thesis
            unfolding M_OP u1 u2 op by (rule seq_same)
        next
          case A_OP
          with Found scan have f: "find_first_free_opt b1 len ''()+-'' = Found p"
            "find_first_free_opt b2 len ''()+-'' = Found p"
            by simp_all
          note u1 = parse_expr_unfold_Found_A[OF False f(1), of l1]
            and u2 = parse_expr_unfold_Found_A[OF False f(2), of l2]
          have l: "parse_expr b2 l2 (int p) M_OP = parse_expr b1 l1 (int p) M_OP"
            if "MismatchedParentheses \<notin> set (messages (parse_expr b1 l1 (int p) M_OP))"
            using m A_OP left that by (intro IH_expr) simp_all
          from quiet[unfolded A_OP u1] l r[unfolded A_OP] show ?thesis
            unfolding A_OP u1 u2 op by (rule seq_same)
        qed
      qed
    qed
  next
    fix b1 b2 l1 l2 len
    assume m: "3 * length b1 = m" and same: "same_span len b1 b2"
      and quiet: "MismatchedParentheses \<notin> set (messages (parse_obj b1 l1 len))"
    show "parse_obj b2 l2 len = parse_obj b1 l1 len"
    proof (cases "len \<le> 0")
      case True
      then show ?thesis
        by (subst parse_obj.simps[of b1], subst parse_obj.simps[of b2]) simp
    next
      case False
      then have z: "0 < nat len" and l: "nat (len - 1) < nat len" by linarith+
      have c0: "char_at b2 0 = char_at b1 0"
        by (rule same_span_char[OF same z, symmetric])
      have cl: "char_at b2 (nat (len - 1)) = char_at b1 (nat (len - 1))"
        by (rule same_span_char[OF same l, symmetric])
      have short: "(int (length b2) < len - 1) = (int (length b1) < len - 1)"
        by (rule same_span_short[OF same, symmetric])
      show ?thesis
      proof (cases "char_at b1 0 = CHR ''('' \<and> \<not> int (length b1) < len - 1
                    \<and> char_at b1 (nat (len - 1)) = CHR '')''")
        case True
        then have a1: "char_at b1 0 = CHR ''(''" "\<not> int (length b1) < len - 1"
          "char_at b1 (nat (len - 1)) = CHR '')''"
          by simp_all
        with c0 cl short have a2: "char_at b2 0 = CHR ''(''" "\<not> int (length b2) < len - 1"
          "char_at b2 (nat (len - 1)) = CHR '')''"
          by simp_all
        note u1 = parse_obj_unfold_paren[OF False a1, of l1]
          and u2 = parse_obj_unfold_paren[OF False a2, of l2]
        from a1(1) have ne: "b1 \<noteq> []" by (auto simp: char_at_def)
        from a1(1,3) False have two: "2 \<le> len"
          by (cases "len = 1") auto
        have "parse_expr (drop 1 b2) (l2 - 1) (len - 2) A_OP
              = parse_expr (drop 1 b1) (l1 - 1) (len - 2) A_OP"
          if "MismatchedParentheses \<notin> set (messages (parse_expr (drop 1 b1) (l1 - 1) (len - 2) A_OP))"
        proof -
          from ne m have "3 * length (drop 1 b1) + (if A_OP = A_OP then 2 else 1) < m"
            by (cases b1) simp_all
          from IH_expr[OF this same_span_inner[OF same two] that] show ?thesis .
        qed
        with quiet[unfolded u1] show ?thesis
          unfolding u1 u2 by (rule single_same)
      next
        case other: False
        then have o1: "char_at b1 0 \<noteq> CHR ''('' \<or> int (length b1) < len - 1
                       \<or> char_at b1 (nat (len - 1)) \<noteq> CHR '')''"
          by blast
        with c0 cl short have o2: "char_at b2 0 \<noteq> CHR ''('' \<or> int (length b2) < len - 1
                       \<or> char_at b2 (nat (len - 1)) \<noteq> CHR '')''"
          by simp
        note u1 = parse_obj_unfold_other[OF False o1, of l1]
          and u2 = parse_obj_unfold_other[OF False o2, of l2]
        from same have eq: "take (nat len) b2 = take (nat len) b1"
          and dg: "isdigit (char_at b2 (nat len)) = isdigit (char_at b1 (nat len))"
          by (simp_all add: same_span_def)
        from False have "(int (strspn b ''0123456789'') = len)
                         = (strspn b ''0123456789'' = nat len)" for b
          by linarith
        with strspn_same[OF eq dg]
        have digits: "(int (strspn b2 ''0123456789'') = len)
                      = (int (strspn b1 ''0123456789'') = len)"
          by simp
        from eq have num: "strncpy b2 len = strncpy b1 len"
          by (simp add: strncpy_def)
        from eq have roll: "parse_roll b2 len = parse_roll b1 len"
          by (rule parse_roll_same)
        show ?thesis
          unfolding u1 u2 by (simp only: c0 short digits num roll)
      qed
    qed
  qed
qed

text \<open>
  Claim C10, as amended. Let two buffers have the same first \<open>len\<close> bytes, followed
  in both by a decimal digit or in both by a byte that is not one (the terminating NUL, a
  space, a newline, an operator and a parenthesis are not), and let the parse of the first
  with length \<open>len\<close> never print the scanner's "Mismatched parentheses.". Then the
  parse of the second with length \<open>len\<close> has the same outcome: the same messages and the
  same tree, or the same fault, wherever the two buffers lie in memory. The searches
  \<open>strpbrk\<close> and \<open>strchr\<close> run to the end of the buffer but their results are
  compared with \<open>len\<close>, and every copy is bounded by \<open>len\<close>; the recursive calls hand
  down spans that end inside the caller's span or with it.
\<close>

theorem C10_parse_reads_span_only:
  "take (nat len) b1 = take (nat len) b2 \<longrightarrow>
   isdigit (char_at b1 (nat len)) = isdigit (char_at b2 (nat len)) \<longrightarrow>
   MismatchedParentheses \<notin> set (messages (parse_expr b1 lit1 len type)) \<longrightarrow>
   parse_expr b2 lit2 len type = parse_expr b1 lit1 len type"
proof (intro impI)
  assume "take (nat len) b1 = take (nat len) b2"
    and "isdigit (char_at b1 (nat len)) = isdigit (char_at b2 (nat len))"
  then have "same_span len b1 b2" by (simp add: same_span_def)
  moreover assume "MismatchedParentheses \<notin> set (messages (parse_expr b1 lit1 len type))"
  ultimately show "parse_expr b2 lit2 len type = parse_expr b1 lit1 len type"
    using parse_same_aux[of "3 * length b1 + (if type = A_OP then 2 else 1)"]
    by blast
qed

theorem C10_parse_reads_span_only_witness:
  "take (nat 3) ''1+2'' = take (nat 3) ''1+2 3d6''
   \<and> isdigit (char_at ''1+2'' (nat 3)) = isdigit (char_at ''1+2 3d6'' (nat 3))
   \<and> parse_expr ''1+2'' 4096 3 A_OP =
       Parsed [] (Some (a_node (m_single (const_obj 1)) PLUS (a_single (m_single (const_obj 2)))))
   \<and> parse_expr ''1+2 3d6'' (- 77) 3 A_OP = parse_expr ''1+2'' 4096 3 A_OP
   \<and> take (nat 3) ''1+23'' = take (nat 3) ''1+29)''
   \<and> isdigit (char_at ''1+23'' (nat 3)) = isdigit (char_at ''1+29)'' (nat 3))
   \<and> parse_expr ''1+23'' 4096 3 A_OP = Parsed [GarbledRoll] None
   \<and> parse_expr ''1+29)'' (- 77) 3 A_OP = parse_expr ''1+23'' 4096 3 A_OP"
proof -
  have a: "take (nat 3) ''1+2'' = take (nat 3) ''1+2 3d6''"
    by simp
  have b: "isdigit (char_at ''1+2'' (nat 3)) = isdigit (char_at ''1+2 3d6'' (nat 3))"
    by (simp add: isdigit_def char_at_def)
  have c: "parse_expr ''1+2'' 4096 3 A_OP =
       Parsed [] (Some (a_node (m_single (const_obj 1)) PLUS (a_single (m_single (const_obj 2)))))"
    by code_simp
  then have d: "MismatchedParentheses \<notin> set (messages (parse_expr ''1+2'' 4096 3 A_OP))"
    by simp
  from C10_parse_reads_span_only[THEN mp, THEN mp, THEN mp, OF a b d]
  have e: "parse_expr ''1+2 3d6'' (- 77) 3 A_OP = parse_expr ''1+2'' 4096 3 A_OP" .
  have a': "take (nat 3) ''1+23'' = take (nat 3) ''1+29)''"
    by simp
  have b': "isdigit (char_at ''1+23'' (nat 3)) = isdigit (char_at ''1+29)'' (nat 3))"
    by (simp add: isdigit_def char_at_def)
  have c': "parse_expr ''1+23'' 4096 3 A_OP = Parsed [GarbledRoll] None"
    by code_simp
  then have d': "MismatchedParentheses \<notin> set (messages (parse_expr ''1+23'' 4096 3 A_OP))"
    by simp
  from C10_parse_reads_span_only[THEN mp, THEN mp, THEN mp, OF a' b' d']
  have e': "parse_expr ''1+29)'' (- 77) 3 A_OP = parse_expr ''1+23'' 4096 3 A_OP" .
  from a b c e a' b' c' e' show ?thesis by simp
qed

text \<open>
  The claim as stated, for any two buffers with the same first \<open>len\<close> bytes, fails in
  two ways.

  \<^item> A digit after the span: \<open>parse_obj\<close> recognises a constant by
    \<open>strspn(inp, "0123456789") == len\<close>, and \<open>strspn\<close> counts the digits beyond
    \<open>len\<close> too. The first two bytes of \<open>"123"\<close> and of \<open>"12+"\<close> are the same, but
    with length 2 the first is rejected as a roll without a \<open>d\<close> and the second is the
    constant 12. No scan fails in either parse.

  \<^item> A failed scan: the first four bytes of \<open>"(1+2"\<close> and of \<open>"(1+2)*3"\<close> are the same
    and neither is followed by a digit. With length 4 the additive scan fails on both, and
    the left operand is then parsed with the distance to the literal \<open>"?"\<close> as its
    length (4096 here). In the first buffer \<open>parse_obj\<close> reads outside the buffer; in
    the second the scan of the left operand runs over the \<open>)\<close> and finds the \<open>*\<close>
    beyond the span, and the parse returns NULL after three messages.
\<close>

theorem C10_bytes_after_span_counterexample:
  "take (nat 2) ''123'' = take (nat 2) ''12+''
   \<and> MismatchedParentheses \<notin> set (messages (parse_expr ''123'' 4096 2 A_OP))
   \<and> parse_expr ''123'' 4096 2 A_OP = Parsed [GarbledRoll] None
   \<and> parse_expr ''12+'' 4096 2 A_OP = Parsed [] (Some (a_single (m_single (const_obj 12))))
   \<and> parse_expr ''123'' 4096 2 A_OP \<noteq> parse_expr ''12+'' 4096 2 A_OP
   \<and> take (nat 4) ''(1+2'' = take (nat 4) ''(1+2)*3''
   \<and> isdigit (char_at ''(1+2'' (nat 4)) = isdigit (char_at ''(1+2)*3'' (nat 4))
   \<and> parse_expr ''(1+2'' 4096 4 A_OP = Fault [MismatchedParentheses, MismatchedParentheses]
   \<and> parse_expr ''(1+2)*3'' 4096 4 A_OP
       = Parsed [MismatchedParentheses, GarbledRoll, MissingObject] None
   \<and> parse_expr ''(1+2'' 4096 4 A_OP \<noteq> parse_expr ''(1+2)*3'' 4096 4 A_OP"
proof -
  have a: "parse_expr ''123'' 4096 2 A_OP = Parsed [GarbledRoll] None"
    by code_simp
  have b: "parse_expr ''12+'' 4096 2 A_OP = Parsed [] (Some (a_single (m_single (const_obj 12))))"
    by code_simp
  have c: "parse_expr ''(1+2'' 4096 4 A_OP = Fault [MismatchedParentheses, MismatchedParentheses]"
    by code_simp
  have d: "parse_expr ''(1+2)*3'' 4096 4 A_OP
             = Parsed [MismatchedParentheses, GarbledRoll, MissingObject] None"
    by code_simp
  have e: "isdigit (char_at ''(1+2'' (nat 4)) = isdigit (char_at ''(1+2)*3'' (nat 4))"
    by (simp add: isdigit_def char_at_def)
  from a b c d e show ?thesis by simp
qed


end
